theory Spec2Isabelle
  imports Main "HOL-Library.Multiset" "HOL-Library.Char_ord" "HOL-Library.List_Lexorder"
begin

section \<open>Values, functions and the host environment\<close>

text \<open>
  The model covers \<^verbatim>\<open>src/webpack.config.js\<close> lines 38 to 551 (the file holds the
  TypeScript module of the library after the build configuration).

  A state key is a string: \<^verbatim>\<open>Object.keys\<close> and \<^verbatim>\<open>for ... in\<close> deliver strings, and
  \<^verbatim>\<open>String(a)\<close> is then the identity. Keys are taken not to look like array indices,
  so that an object enumerates its keys in insertion order, and not to be names of
  \<^verbatim>\<open>Object.prototype\<close>, so that \<^verbatim>\<open>key in newState\<close> is membership in the batch.

  A state value is one of the JavaScript values the development needs. Numbers are
  integers (exact below \<open>2^53\<close>) or \<^verbatim>\<open>NaN\<close>. A promise is a value: either a pending
  computation started by a request function (\<open>Job\<close>) or the promise returned by
  \<^verbatim>\<open>p.finally(() => in_progress = false)\<close> inside \<^verbatim>\<open>ThrottleRequest\<close>, which is
  determined by \<open>p\<close> and by the closure cell that holds \<^verbatim>\<open>in_progress\<close>.
\<close>

type_synonym StateKey = string

datatype promise = Job nat | Finally promise nat

datatype StateValue = Undefined | Null | Num int | NaN | Str string | Promise promise

text \<open>What JavaScript throws, rejects with, or prints with \<^verbatim>\<open>console.error\<close>.\<close>

datatype exn = Thrown StateValue | Error string | TypeError

text \<open>\<^verbatim>\<open>Boolean(x)\<close>, as used by \<^verbatim>\<open>if(p)\<close> and \<^verbatim>\<open>if(x)\<close>.\<close>

fun truthy :: "StateValue \<Rightarrow> bool" where
  "truthy Undefined = False"
| "truthy Null = False"
| "truthy (Num n) = (n \<noteq> 0)"
| "truthy NaN = False"
| "truthy (Str s) = (s \<noteq> [])"
| "truthy (Promise p) = True"

text \<open>
  The body of a JavaScript function \<^verbatim>\<open>(state, graph) => ...\<close> of the kind the library
  is written for: it reads top-level properties of its first argument, one after the
  other, each read deciding how it goes on, and ends by returning a value or by
  throwing. It does not look at its second argument and terminates.
\<close>

datatype fn = Ret StateValue | Throw exn | Read StateKey "StateValue \<Rightarrow> fn"

text \<open>
  A function value stored in a deriver record: a function given by its body, or the
  closure returned by \<^verbatim>\<open>ThrottleRequest(request)\<close>, which owns the cell of its
  \<^verbatim>\<open>in_progress\<close> variable.
\<close>

datatype func = Fn fn | Throttled nat func

text \<open>
  A callback attached to a promise: the \<^verbatim>\<open>.then(...).catch(...)\<close> chain of
  \<^verbatim>\<open>StateGraph.update\<close> for a key, or the \<^verbatim>\<open>finally\<close> callback of a throttle cell.
\<close>

datatype reaction = ThenPush StateKey | ClearFlag nat

text \<open>
  The host: the cells of all throttle closures, the callbacks attached to promises in the
  order they were attached, what \<^verbatim>\<open>console.error\<close> printed, the bodies of the functions
  that ran, the watcher calls made (a watcher is known by its identity only), and
  \<^verbatim>\<open>a.localeCompare(b) <= 0\<close> for the host's locale.
\<close>

type_synonym watcher = nat

record env =
  in_progress :: "bool list"
  reactions :: "(promise \<times> reaction) list"
  console :: "exn list"
  calls :: "fn list"
  notified :: "(watcher \<times> StateKey) list"
  collate :: "string \<Rightarrow> string \<Rightarrow> bool"

subsection \<open>The collation of the root locale\<close>

text \<open>
  \<^verbatim>\<open>String.prototype.localeCompare\<close> belongs to the host and depends on its locale. In
  the root locale (the collation of \<^verbatim>\<open>en\<close>) strings of printable ASCII characters are
  compared by their primary weights first: the space, the punctuation marks, the symbols
  and the dollar sign in the order of \<open>marks\<close>, then the digits, then the letters in
  alphabetical order, a capital letter with the weight of its small letter. Two strings of
  equal primary weights differ in case only, and at the first such position the small
  letter comes first. The table holds the 95 printable ASCII characters; keys and tie-break
  strings are taken to consist of these (any other character gets the weight after
  \<^verbatim>\<open>z\<close>).
\<close>

definition marks :: string where
  "marks = '' _-,;:!?.'' @ [CHR 0x27, CHR 0x22] @ ''()[]{}@*/'' @ [CHR 0x5C] @ ''&#%'' @ [CHR 0x60]
     @ ''^+<=>|~$''"

definition digits :: string where
  "digits = ''0123456789''"

definition small :: string where
  "small = ''abcdefghijklmnopqrstuvwxyz''"

definition capital :: string where
  "capital = ''ABCDEFGHIJKLMNOPQRSTUVWXYZ''"

fun position :: "'a \<Rightarrow> 'a list \<Rightarrow> nat" where
  "position x [] = 0"
| "position x (y # ys) = (if x = y then 0 else Suc (position x ys))"

definition primary :: "char \<Rightarrow> nat" where
  "primary c = (if c \<in> set capital then position c capital + length (marks @ digits)
                else position c (marks @ digits @ small))"

definition tertiary :: "char \<Rightarrow> nat" where
  "tertiary c = (if c \<in> set capital then 1 else 0)"

fun compare_weights :: "nat list \<Rightarrow> nat list \<Rightarrow> int" where
  "compare_weights [] [] = 0"
| "compare_weights [] (y # ys) = - 1"
| "compare_weights (x # xs) [] = 1"
| "compare_weights (x # xs) (y # ys) =
     (if x < y then - 1 else if y < x then 1 else compare_weights xs ys)"

definition localeCompare :: "string \<Rightarrow> string \<Rightarrow> int" where
  "localeCompare a b =
     (let c = compare_weights (map primary a) (map primary b)
      in if c \<noteq> 0 then c else compare_weights (map tertiary a) (map tertiary b))"

subsection \<open>Calling a function on an object\<close>

text \<open>
  The first argument of a function is an object with a \<^verbatim>\<open>get\<close> behaviour: the real state
  map, or the proxy of \<^verbatim>\<open>PropGetReporter\<close>. The object is given by its property read,
  which may change the object's own data \<open>s\<close>.
\<close>

primrec invoke :: "fn \<Rightarrow> (StateKey \<Rightarrow> 's \<Rightarrow> StateValue \<times> 's) \<Rightarrow> 's \<Rightarrow> (exn + StateValue) \<times> 's" where
  "invoke (Ret v) get s = (Inr v, s)"
| "invoke (Throw e) get s = (Inl e, s)"
| "invoke (Read k c) get s = (case get k s of (v, s') \<Rightarrow> invoke (c v) get s')"

text \<open>
  \<^verbatim>\<open>ThrottleRequest\<close>, lines 134 to 152: the returned closure, applied. Attaching
  \<^verbatim>\<open>finally\<close> to something that is not a promise is a \<^verbatim>\<open>TypeError\<close>, raised after
  \<^verbatim>\<open>in_progress = true\<close>.
\<close>

fun call :: "func \<Rightarrow> (StateKey \<Rightarrow> 's \<Rightarrow> StateValue \<times> 's) \<Rightarrow> 's \<Rightarrow> env \<Rightarrow> (exn + StateValue) \<times> 's \<times> env" where
  "call (Fn f) get s h =
     (case invoke f get s of (r, s') \<Rightarrow> (r, s', h\<lparr>calls := calls h @ [f]\<rparr>))"
| "call (Throttled c request) get s h =
     (if c < length (in_progress h) \<and> in_progress h ! c then (Inr Null, s, h)
      else case call request get s h of
        (Inl e, s', h') \<Rightarrow> (Inl e, s', h')
      | (Inr p, s', h') \<Rightarrow>
          if truthy p then
            (let h'' = h'\<lparr>in_progress := (in_progress h')[c := True]\<rparr> in
             case p of
               Promise q \<Rightarrow> (Inr (Promise (Finally q c)), s',
                              h''\<lparr>reactions := reactions h'' @ [(q, ClearFlag c)]\<rparr>)
             | _ \<Rightarrow> (Inl TypeError, s', h''))
          else (Inr Null, s', h'))"

text \<open>\<^verbatim>\<open>ThrottleRequest(request)\<close> itself: a new cell, \<^verbatim>\<open>let in_progress = false\<close>.\<close>

definition ThrottleRequest :: "func \<Rightarrow> env \<Rightarrow> func \<times> env" where
  "ThrottleRequest request h =
     (Throttled (length (in_progress h)) request, h\<lparr>in_progress := in_progress h @ [False]\<rparr>)"

subsection \<open>Dependency extraction\<close>

text \<open>\<^verbatim>\<open>PropGetReporter(fetched)\<close>, lines 105 to 112: the \<^verbatim>\<open>get\<close> trap of the proxy.\<close>

definition PropGetReporter :: "StateKey \<Rightarrow> StateKey list \<Rightarrow> StateValue \<times> StateKey list" where
  "PropGetReporter name fetched = (Undefined, fetched @ [name])"

record ExplicitlyDerived =
  params :: "StateKey list"
  func :: func
  order :: "string option"
  is_request :: bool

text \<open>
  \<^verbatim>\<open>ExtractDeriver(fn)\<close>, lines 114 to 129. The record it returns has no \<^verbatim>\<open>order\<close> and
  no \<^verbatim>\<open>is_request\<close>; a missing \<^verbatim>\<open>is_request\<close> is falsy.
\<close>

definition ExtractDeriver :: "func \<Rightarrow> env \<Rightarrow> (exn + ExplicitlyDerived) \<times> env" where
  "ExtractDeriver fn h =
     (case call fn PropGetReporter [] h of
        (Inl error, proplist, h') \<Rightarrow>
          (Inl (Error ''could not automatically extract dependencies from function''),
           h'\<lparr>console := console h' @ [error]\<rparr>)
      | (Inr _, proplist, h') \<Rightarrow>
          (Inr \<lparr>params = proplist, func = fn, order = None, is_request = False\<rparr>, h'))"

section \<open>The state graph\<close>

text \<open>
  The fields of \<^verbatim>\<open>class StateGraph\<close>, lines 325 to 342, and the host it runs in.
  Objects whose key order matters (\<^verbatim>\<open>derivers\<close>, \<^verbatim>\<open>deps\<close>) are association lists in
  enumeration order. Graphs are built without \<^verbatim>\<open>properties\<close>: the fields \<^verbatim>\<open>props\<close> and
  \<^verbatim>\<open>extern\<close> and the property classes are outside the model, and the state map has
  plain slots only.
\<close>

datatype mode = Fast | Accurate

record graph =
  state :: "StateKey \<rightharpoonup> StateValue"
  push_default_mode :: mode
  derivers :: "(StateKey \<times> ExplicitlyDerived) list"
  deps :: "(StateKey \<times> StateKey list) list"
  global_watchers :: "watcher list"
  watchers :: "StateKey \<rightharpoonup> watcher list"
  host :: env

text \<open>A batch, in the enumeration order of its keys; an object has each key once.\<close>

type_synonym StateMap = "(StateKey \<times> StateValue) list"

text \<open>\<^verbatim>\<open>obj[k] = v\<close> on an object kept in enumeration order.\<close>

fun obj_set :: "'k \<Rightarrow> 'v \<Rightarrow> ('k \<times> 'v) list \<Rightarrow> ('k \<times> 'v) list" where
  "obj_set k v [] = [(k, v)]"
| "obj_set k v (p # ps) = (if fst p = k then (k, v) # ps else p # obj_set k v ps)"

text \<open>\<^verbatim>\<open>Object.assign(this.state, newState)\<close>.\<close>

definition assign :: "(StateKey \<rightharpoonup> StateValue) \<Rightarrow> StateMap \<Rightarrow> (StateKey \<rightharpoonup> StateValue)" where
  "assign s newState = fold (\<lambda>(k, v) s. s(k \<mapsto> v)) newState s"

text \<open>A property read on the real state map: a missing key reads \<^verbatim>\<open>undefined\<close>.\<close>

definition state_get :: "StateKey \<Rightarrow> (StateKey \<rightharpoonup> StateValue) \<Rightarrow> StateValue \<times> (StateKey \<rightharpoonup> StateValue)" where
  "state_get k s = (case s k of None \<Rightarrow> Undefined | Some v \<Rightarrow> v, s)"

text \<open>
  \<^verbatim>\<open>dispatch_change(key)\<close>, lines 545 to 550. A watcher is a listener: its call is recorded in
  the host, in call order, and it does not push to the graph or throw.
\<close>

definition dispatch_change :: "StateKey \<Rightarrow> graph \<Rightarrow> graph" where
  "dispatch_change key g =
     g\<lparr>host := (host g)\<lparr>notified := notified (host g)
          @ map (\<lambda>watcher. (watcher, key)) (case watchers g key of None \<Rightarrow> [] | Some w \<Rightarrow> w)
          @ map (\<lambda>watcher. (watcher, key)) (global_watchers g)\<rparr>\<rparr>"

text \<open>
  \<^verbatim>\<open>update(key, newState)\<close>, lines 520 to 543. The first component of the result is
  the exception that leaves \<^verbatim>\<open>update\<close>, if any: one thrown by \<^verbatim>\<open>d.func\<close>, or the
  \<^verbatim>\<open>TypeError\<close> of \<^verbatim>\<open>x.then\<close> on a truthy value that is not a promise.
\<close>

definition update :: "StateKey \<Rightarrow> StateMap \<Rightarrow> graph \<Rightarrow> exn option \<times> graph" where
  "update key newState g =
     (case map_of (derivers g) key of
        None \<Rightarrow> (None, g)
      | Some d \<Rightarrow>
          if is_request d then
            (if key \<in> set (map fst newState) then (None, dispatch_change key g)
             else case call (func d) state_get (state g) (host g) of
               (Inl e, _, h) \<Rightarrow> (Some e, g\<lparr>host := h\<rparr>)
             | (Inr x, _, h) \<Rightarrow>
                 if truthy x then
                   (case x of
                      Promise p \<Rightarrow> (None, g\<lparr>host := h\<lparr>reactions := reactions h @ [(p, ThenPush key)]\<rparr>\<rparr>)
                    | _ \<Rightarrow> (Some TypeError, g\<lparr>host := h\<rparr>))
                 else (None, g\<lparr>host := h\<rparr>))
          else
            (case call (func d) state_get (state g) (host g) of
               (Inl e, _, h) \<Rightarrow> (Some e, g\<lparr>host := h\<rparr>)
             | (Inr v, _, h) \<Rightarrow>
                 (None, dispatch_change key (g\<lparr>host := h, state := (state g)(key \<mapsto> v)\<rparr>))))"

subsection \<open>Fast mode\<close>

text \<open>
  \<^verbatim>\<open>push_fast\<close>, lines 439 to 460. The loop need not end, so it is a partial function:
  \<open>None\<close> is a call that never returns, \<open>Some (Inl e, g)\<close> one that throws \<open>e\<close>,
  \<open>Some (Inr visited, g)\<close> one that returns.
\<close>

partial_function (option) push_fast_loop ::
  "StateMap \<Rightarrow> StateKey list \<Rightarrow> StateKey list \<Rightarrow> graph \<Rightarrow> ((exn + StateKey list) \<times> graph) option" where
  "push_fast_loop newState queue visited g =
     (case queue of
        [] \<Rightarrow> Some (Inr visited, g)
      | n # rest \<Rightarrow>
          (case update n newState g of
             (Some e, g') \<Rightarrow> Some (Inl e, g')
           | (None, g') \<Rightarrow>
               push_fast_loop newState
                 (rest @ (case map_of (deps g') n of None \<Rightarrow> [] | Some dep \<Rightarrow> dep))
                 (visited @ [n]) g'))"

declare push_fast_loop.simps [code]

definition push_fast :: "StateMap \<Rightarrow> graph \<Rightarrow> ((exn + StateKey list) \<times> graph) option" where
  "push_fast newState g =
     push_fast_loop newState (map fst newState) [] (g\<lparr>state := assign (state g) newState\<rparr>)"

subsection \<open>Accurate mode\<close>

text \<open>
  A \<^verbatim>\<open>Set\<close> is the list of its members in insertion order. The first loop of
  \<^verbatim>\<open>push_accurate\<close>, lines 467 to 476.
\<close>

definition set_add :: "'a \<Rightarrow> 'a list \<Rightarrow> 'a list" where
  "set_add x xs = (if x \<in> set xs then xs else xs @ [x])"

function closure_loop :: "(StateKey \<times> StateKey list) list \<Rightarrow> StateKey list \<Rightarrow> StateKey list \<Rightarrow> StateKey list" where
  "closure_loop ds to_be_updated [] = to_be_updated"
| "closure_loop ds to_be_updated (front # queue) =
     closure_loop ds (set_add front to_be_updated)
       (queue @ (case map_of ds front of
                   None \<Rightarrow> []
                 | Some dep \<Rightarrow> filter (\<lambda>d. d \<notin> set (set_add front to_be_updated)) dep))"
  by pat_completeness auto
termination
proof (relation "measures [\<lambda>(ds, tbu, q). card ((set q \<union> \<Union>(set ` snd ` set ds)) - set tbu),
                           \<lambda>(ds, tbu, q). length (filter (\<lambda>x. x \<in> set tbu) q)]", goal_cases)
  case 1
  then show ?case by simp
next
  case (2 ds tbu front queue)
  define tbu' where "tbu' = set_add front tbu"
  define new where "new = (case map_of ds front of None \<Rightarrow> [] | Some dep \<Rightarrow> filter (\<lambda>d. d \<notin> set tbu') dep)"
  let ?V = "\<Union>(set ` snd ` set ds)"
  have vals: "set new \<subseteq> ?V"
  proof (cases "map_of ds front")
    case None
    then show ?thesis by (simp add: new_def)
  next
    case (Some dep)
    then have "set dep \<subseteq> ?V" by (auto dest!: map_of_SomeD simp: image_iff)
    with Some show ?thesis by (auto simp: new_def)
  qed
  have fresh: "filter (\<lambda>x. x \<in> set tbu') new = []"
    by (auto simp: new_def filter_empty_conv split: option.splits)
  have fin: "finite (set (front # queue) \<union> ?V)" by simp
  have sub: "set (queue @ new) \<union> ?V \<subseteq> set (front # queue) \<union> ?V"
    using vals by auto
  show ?case
  proof (cases "front \<in> set tbu")
    case True
    then have eq: "tbu' = tbu" by (simp add: set_add_def tbu'_def)
    have "set (queue @ new) \<union> ?V - set tbu \<subseteq> set (front # queue) \<union> ?V - set tbu"
      using sub by blast
    then have "card (set (queue @ new) \<union> ?V - set tbu) \<le> card (set (front # queue) \<union> ?V - set tbu)"
      using fin by (intro card_mono) auto
    then show ?thesis
      unfolding tbu'_def[symmetric] new_def[symmetric] using True fresh by (auto simp add: eq)
  next
    case False
    then have st: "set tbu' = insert front (set tbu)" by (simp add: set_add_def tbu'_def)
    have "set (queue @ new) \<union> ?V - set tbu' \<subset> set (front # queue) \<union> ?V - set tbu"
      using sub False st by auto
    then have "card (set (queue @ new) \<union> ?V - set tbu') < card (set (front # queue) \<union> ?V - set tbu)"
      using fin by (intro psubset_card_mono) auto
    then show ?thesis unfolding tbu'_def[symmetric] new_def[symmetric] by simp
  qed
qed

text \<open>\<^verbatim>\<open>canUpdate\<close>, lines 480 to 482, on the current contents of \<^verbatim>\<open>to_be_updated\<close>.\<close>

definition canUpdate :: "graph \<Rightarrow> StateKey list \<Rightarrow> StateKey \<Rightarrow> bool" where
  "canUpdate g to_be_updated key =
     (case map_of (derivers g) key of
        Some d \<Rightarrow> foldl (\<lambda>acc x. acc \<and> x) True (map (\<lambda>d. d \<notin> set to_be_updated) (params d))
      | None \<Rightarrow> True)"

text \<open>
  One \<^verbatim>\<open>for (const u of to_be_updated)\<close> pass, lines 489 to 496. The loop only ever
  deletes the member it is at, so it visits the members the set had when the pass began;
  \<^verbatim>\<open>canUpdate\<close> sees the deletions made so far.
\<close>

fun scan :: "StateMap \<Rightarrow> StateKey list \<Rightarrow> StateKey list \<Rightarrow> StateKey list \<Rightarrow> bool \<Rightarrow> graph
    \<Rightarrow> exn option \<times> StateKey list \<times> StateKey list \<times> bool \<times> graph" where
  "scan newState [] to_be_updated ordr any_updated g = (None, to_be_updated, ordr, any_updated, g)"
| "scan newState (u # us) to_be_updated ordr any_updated g =
     (if canUpdate g to_be_updated u then
        (case update u newState g of
           (Some e, g') \<Rightarrow> (Some e, to_be_updated, ordr, any_updated, g')
         | (None, g') \<Rightarrow> scan newState us (remove1 u to_be_updated) (ordr @ [u]) True g')
      else scan newState us to_be_updated ordr any_updated g)"

text \<open>The \<^verbatim>\<open>while(to_be_updated.size > 0)\<close> loop, lines 486 to 501.\<close>

function stabilize :: "StateMap \<Rightarrow> StateKey list \<Rightarrow> StateKey list \<Rightarrow> graph
    \<Rightarrow> exn option \<times> StateKey list \<times> StateKey list \<times> graph" where
  "stabilize newState to_be_updated ordr g =
     (if to_be_updated = [] then (None, to_be_updated, ordr, g)
      else case scan newState to_be_updated to_be_updated ordr False g of
        (Some e, to_be_updated', ordr', any_updated, g') \<Rightarrow> (Some e, to_be_updated', ordr', g')
      | (None, to_be_updated', ordr', any_updated, g') \<Rightarrow>
          if \<not> any_updated then (None, to_be_updated', ordr', g')
          else stabilize newState to_be_updated' ordr' g')"
  by pat_completeness auto
termination
proof (relation "measure (\<lambda>(newState, tbu, ordr, g). length tbu)", goal_cases)
  case 1
  then show ?case by simp
next
  case (2 newState tbu ordr g r rest tbu' rest' ordr' rest'' any_updated g')
  have shrink: "length t' \<le> length t \<and> (a' \<longrightarrow> a0 \<or> length t' < length t)"
    if "mset us \<subseteq># mset t" "scan newState us t ord0 a0 g0 = (e0, t', ord', a', g0')"
    for us t ord0 a0 g0 e0 t' ord' a' g0'
    using that
  proof (induction us arbitrary: t ord0 a0 g0)
    case Nil
    then show ?case by simp
  next
    case (Cons u us)
    from Cons.prems(1) have u_in: "u \<in> set t"
      by (metis list.set_intros(1) mset_subset_eqD set_mset_mset)
    from Cons.prems(1) have rest: "mset us \<subseteq># mset (remove1 u t)"
      by (simp add: insert_subset_eq_iff)
    from Cons.prems(1) have rest': "mset us \<subseteq># mset t"
      by (metis mset.simps(2) subset_mset.dual_order.trans mset_subset_eq_add_mset_cancel
          subset_mset.order_refl mset_subset_eq_insertD subset_mset.less_imp_le)
    from u_in have "0 < length t" by (rule length_pos_if_in_set)
    with u_in have len: "length (remove1 u t) < length t"
      by (simp add: length_remove1)
    show ?case
    proof (cases "canUpdate g0 t u")
      case False
      with Cons.prems(2) have "scan newState us t ord0 a0 g0 = (e0, t', ord', a', g0')"
        by simp
      from Cons.IH[OF rest' this] show ?thesis .
    next
      case True
      show ?thesis
      proof (cases "update u newState g0")
        case (Pair eo g1)
        show ?thesis
        proof (cases eo)
          case (Some err)
          with True Pair Cons.prems(2) show ?thesis by simp
        next
          case None
          with True Pair Cons.prems(2)
          have "scan newState us (remove1 u t) (ord0 @ [u]) True g1 = (e0, t', ord', a', g0')"
            by simp
          from Cons.IH[OF rest this] len show ?thesis by simp
        qed
      qed
    qed
  qed
  from 2 have "scan newState tbu tbu ordr False g = (None, tbu', ordr', any_updated, g')"
    by simp
  from shrink[OF _ this] 2 show ?case by simp
qed

text \<open>
  The \<^verbatim>\<open>for (const u of update)\<close> loop of the cycle fallback, lines 510 to 514. It also
  empties \<^verbatim>\<open>to_be_updated\<close>, which nothing reads afterwards.
\<close>

fun update_each :: "StateMap \<Rightarrow> StateKey list \<Rightarrow> StateKey list \<Rightarrow> graph
    \<Rightarrow> exn option \<times> StateKey list \<times> graph" where
  "update_each newState [] ordr g = (None, ordr, g)"
| "update_each newState (u # us) ordr g =
     (case update u newState g of
        (Some e, g') \<Rightarrow> (Some e, ordr, g')
      | (None, g') \<Rightarrow> update_each newState us (ordr @ [u]) g')"

text \<open>
  \<^verbatim>\<open>this.derivers[a]?.order || String(a)\<close>, line 508: an empty \<^verbatim>\<open>order\<close> is falsy.
\<close>

definition tie_break :: "graph \<Rightarrow> StateKey \<Rightarrow> string" where
  "tie_break g a =
     (case map_of (derivers g) a of
        None \<Rightarrow> a
      | Some d \<Rightarrow> (case order d of None \<Rightarrow> a | Some s \<Rightarrow> if s = [] then a else s))"

text \<open>
  \<^verbatim>\<open>Array.prototype.sort\<close> is stable; for a comparison that is a total preorder it
  returns the one stable sorted arrangement, which insertion from the right computes.
  \<open>le a b\<close> stands for \<^verbatim>\<open>compare(a, b) <= 0\<close>.
\<close>

fun insert_sorted :: "('a \<Rightarrow> 'a \<Rightarrow> bool) \<Rightarrow> 'a \<Rightarrow> 'a list \<Rightarrow> 'a list" where
  "insert_sorted le x [] = [x]"
| "insert_sorted le x (y # ys) = (if le x y then x # y # ys else y # insert_sorted le x ys)"

definition js_sort :: "('a \<Rightarrow> 'a \<Rightarrow> bool) \<Rightarrow> 'a list \<Rightarrow> 'a list" where
  "js_sort le xs = foldr (insert_sorted le) xs []"

text \<open>\<^verbatim>\<open>push_accurate\<close>, lines 462 to 518.\<close>

definition push_accurate :: "StateMap \<Rightarrow> graph \<Rightarrow> (exn + StateKey list) \<times> graph" where
  "push_accurate newState g =
     (let to_be_updated = closure_loop (deps g) [] (map fst newState);
          g1 = g\<lparr>state := assign (state g) newState\<rparr>
      in case stabilize newState to_be_updated [] g1 of
        (Some e, _, _, g2) \<Rightarrow> (Inl e, g2)
      | (None, to_be_updated', ordr, g2) \<Rightarrow>
          if to_be_updated' \<noteq> [] then
            (let update' = js_sort (\<lambda>a b. collate (host g2) (tie_break g2 a) (tie_break g2 b))
                            to_be_updated'
             in case update_each newState update' ordr g2 of
               (Some e, _, g3) \<Rightarrow> (Inl e, g3)
             | (None, ordr', g3) \<Rightarrow> (Inr ordr', g3))
          else (Inr ordr, g2))"

text \<open>\<^verbatim>\<open>push(newState, mode)\<close>, lines 431 to 437; \<open>None\<close> is the \<^verbatim>\<open>null\<close> mode.\<close>

definition push :: "StateMap \<Rightarrow> mode option \<Rightarrow> graph \<Rightarrow> ((exn + StateKey list) \<times> graph) option" where
  "push newState mode g =
     (if (case mode of None \<Rightarrow> push_default_mode g | Some m \<Rightarrow> m) = Fast
      then push_fast newState g
      else Some (push_accurate newState g))"

subsection \<open>Construction\<close>

text \<open>
  The argument of the constructor, lines 77 to 103, without \<^verbatim>\<open>properties\<close>. An entry of
  \<^verbatim>\<open>derivers\<close> or \<^verbatim>\<open>requests\<close> is a function, a deriver record, or a falsy value
  (\<open>None\<close>), which the constructor drops; a missing object is the empty list.
\<close>

datatype decl = Auto func | Explicit ExplicitlyDerived

record StateGraphArgs =
  arg_derivers :: "(StateKey \<times> decl option) list"
  arg_requests :: "(StateKey \<times> decl option) list"
  arg_defaults :: "StateMap option"

text \<open>
  The \<^verbatim>\<open>filter\<close> and \<^verbatim>\<open>map\<close> over the entries, lines 346 to 354 and 357 to 371;
  \<open>request\<close> tells the second from the first. An exception of \<^verbatim>\<open>ExtractDeriver\<close>
  leaves the constructor.
\<close>

fun extract_entries :: "bool \<Rightarrow> (StateKey \<times> decl option) list \<Rightarrow> env
    \<Rightarrow> (exn + (StateKey \<times> ExplicitlyDerived) list) \<times> env" where
  "extract_entries request [] h = (Inr [], h)"
| "extract_entries request ((name, None) # entries) h = extract_entries request entries h"
| "extract_entries request ((name, Some (Auto fn)) # entries) h =
     (case ExtractDeriver fn h of
        (Inl e, h') \<Rightarrow> (Inl e, h')
      | (Inr d, h') \<Rightarrow>
          (case extract_entries request entries h' of
             (Inl e, h'') \<Rightarrow> (Inl e, h'')
           | (Inr ds, h'') \<Rightarrow>
               (Inr ((name, if request then d\<lparr>is_request := True\<rparr> else d) # ds), h'')))"
| "extract_entries request ((name, Some (Explicit value)) # entries) h =
     (case extract_entries request entries h of
        (Inl e, h') \<Rightarrow> (Inl e, h')
      | (Inr ds, h') \<Rightarrow>
          (Inr ((name, if request then value\<lparr>is_request := True\<rparr> else value) # ds), h'))"

text \<open>\<^verbatim>\<open>{...a, ...b}\<close> and \<^verbatim>\<open>Object.fromEntries\<close>: assignments in order.\<close>

definition spread :: "('k \<times> 'v) list \<Rightarrow> ('k \<times> 'v) list \<Rightarrow> ('k \<times> 'v) list" where
  "spread a b = fold (\<lambda>(k, v) obj. obj_set k v obj) b a"

text \<open>The dependency index, lines 394 to 404.\<close>

definition build_deps :: "(StateKey \<times> ExplicitlyDerived) list \<Rightarrow> (StateKey \<times> StateKey list) list" where
  "build_deps ds =
     fold (\<lambda>(name, deriver) deps.
             fold (\<lambda>dep deps. obj_set dep ((case map_of deps dep of None \<Rightarrow> [] | Some a \<Rightarrow> a) @ [name]) deps)
               (params deriver) deps)
       ds []"

text \<open>
  \<^verbatim>\<open>new StateGraph(args)\<close> in a host \<open>h\<close>, lines 344 to 407: the new graph, or the
  exception that leaves the constructor together with the host as it is then.
\<close>

definition StateGraph :: "StateGraphArgs \<Rightarrow> env \<Rightarrow> ((exn \<times> env) + graph) option" where
  "StateGraph args h =
     (case extract_entries False (arg_derivers args) h of
        (Inl e, h1) \<Rightarrow> Some (Inl (e, h1))
      | (Inr ds, h1) \<Rightarrow>
          (case extract_entries True (arg_requests args) h1 of
             (Inl e, h2) \<Rightarrow> Some (Inl (e, h2))
           | (Inr rs, h2) \<Rightarrow>
               (let derivers = spread (spread [] ds) (spread [] rs);
                    g = \<lparr>state = Map.empty, push_default_mode = Accurate, derivers = derivers,
                         deps = build_deps derivers, global_watchers = [],
                         watchers = Map.empty, host = h2\<rparr>
                in case arg_defaults args of
                  None \<Rightarrow> Some (Inr g)
                | Some defaults \<Rightarrow>
                    (case push defaults None g of
                       None \<Rightarrow> None
                     | Some (Inl e, g') \<Rightarrow> Some (Inl (e, host g'))
                     | Some (Inr _, g') \<Rightarrow> Some (Inr g')))))"

subsection \<open>Settlement of promises\<close>

text \<open>
  The host settles a promise with an outcome. The callbacks attached to it run in the
  order they were attached. The chain \<^verbatim>\<open>x.then(value => this.push({[key]: value}))
  .catch(reason => console.error(reason))\<close> of lines 531 to 535 pushes on success and
  prints on failure, also when the push itself throws. The \<^verbatim>\<open>finally\<close> callback of line
  147 clears its cell, after which the promise \<^verbatim>\<open>finally\<close> returned settles the same way.
\<close>

datatype outcome = Resolved StateValue | Rejected exn

fun react :: "reaction \<Rightarrow> promise \<Rightarrow> outcome \<Rightarrow> graph \<Rightarrow> (promise list \<times> graph) option" where
  "react (ThenPush key) p (Resolved value) g =
     (case push [(key, value)] None g of
        None \<Rightarrow> None
      | Some (Inl e, g') \<Rightarrow> Some ([], g'\<lparr>host := (host g')\<lparr>console := console (host g') @ [e]\<rparr>\<rparr>)
      | Some (Inr _, g') \<Rightarrow> Some ([], g'))"
| "react (ThenPush key) p (Rejected reason) g =
     Some ([], g\<lparr>host := (host g)\<lparr>console := console (host g) @ [reason]\<rparr>\<rparr>)"
| "react (ClearFlag c) p out g =
     Some ([Finally p c], g\<lparr>host := (host g)\<lparr>in_progress := (in_progress (host g))[c := False]\<rparr>\<rparr>)"

fun react_each :: "reaction list \<Rightarrow> promise \<Rightarrow> outcome \<Rightarrow> graph \<Rightarrow> (promise list \<times> graph) option" where
  "react_each [] p out g = Some ([], g)"
| "react_each (r # rs) p out g =
     (case react r p out g of
        None \<Rightarrow> None
      | Some (settled, g') \<Rightarrow>
          (case react_each rs p out g' of
             None \<Rightarrow> None
           | Some (settled', g'') \<Rightarrow> Some (settled @ settled', g'')))"

partial_function (option) settle_loop :: "outcome \<Rightarrow> promise list \<Rightarrow> graph \<Rightarrow> graph option" where
  "settle_loop out ps g =
     (case ps of
        [] \<Rightarrow> Some g
      | p # rest \<Rightarrow>
          (case react_each (map snd (filter (\<lambda>(q, r). q = p) (reactions (host g)))) p out
                  (g\<lparr>host := (host g)\<lparr>reactions := filter (\<lambda>(q, r). q \<noteq> p) (reactions (host g))\<rparr>\<rparr>) of
             None \<Rightarrow> None
           | Some (settled, g') \<Rightarrow> settle_loop out (rest @ settled) g'))"

declare settle_loop.simps [code]

definition settle :: "promise \<Rightarrow> outcome \<Rightarrow> graph \<Rightarrow> graph option" where
  "settle p out g = settle_loop out [p] g"

subsection \<open>Watchers\<close>

text \<open>
  \<^verbatim>\<open>watch\<close> and \<^verbatim>\<open>watch_all\<close>, lines 417 to 429, return closures; a closure is given by
  what it captured. Calling the closure of \<^verbatim>\<open>watch\<close> on a graph with no watcher list
  for the key would be a \<^verbatim>\<open>TypeError\<close>.
\<close>

datatype unsubscriber = Unwatch StateKey watcher | UnwatchAll watcher

definition watch :: "StateKey \<Rightarrow> watcher \<Rightarrow> graph \<Rightarrow> unsubscriber \<times> graph" where
  "watch name watcher g =
     (Unwatch name watcher,
      g\<lparr>watchers := (watchers g)(name \<mapsto> (case watchers g name of None \<Rightarrow> [] | Some a \<Rightarrow> a) @ [watcher])\<rparr>)"

definition watch_all :: "watcher \<Rightarrow> graph \<Rightarrow> unsubscriber \<times> graph" where
  "watch_all watcher g =
     (UnwatchAll watcher, g\<lparr>global_watchers := global_watchers g @ [watcher]\<rparr>)"

fun unsubscribe :: "unsubscriber \<Rightarrow> graph \<Rightarrow> exn + graph" where
  "unsubscribe (Unwatch name watcher) g =
     (case watchers g name of
        None \<Rightarrow> Inl TypeError
      | Some ws \<Rightarrow> Inr (g\<lparr>watchers := (watchers g)(name \<mapsto> filter (\<lambda>x. x \<noteq> watcher) ws)\<rparr>))"
| "unsubscribe (UnwatchAll watcher) g =
     Inr (g\<lparr>global_watchers := filter (\<lambda>x. x \<noteq> watcher) (global_watchers g)\<rparr>)"

section \<open>Example functions and graphs\<close>

text \<open>A host in which nothing has happened yet, in the root locale.\<close>

definition host0 :: env where
  "host0 = \<lparr>in_progress = [], reactions = [], console = [], calls = [], notified = [],
     collate = (\<lambda>a b. localeCompare a b \<le> 0)\<rparr>"

definition empty_graph :: graph where
  "empty_graph = \<lparr>state = Map.empty, push_default_mode = Accurate, derivers = [], deps = [],
     global_watchers = [], watchers = Map.empty, host = host0\<rparr>"

text \<open>The graph a constructor call returned, and the graph a push left.\<close>

definition built :: "((exn \<times> env) + graph) option \<Rightarrow> graph" where
  "built r = (case r of Some (Inr g) \<Rightarrow> g | _ \<Rightarrow> empty_graph)"

definition pushed :: "((exn + StateKey list) \<times> graph) option \<Rightarrow> graph" where
  "pushed r = (case r of Some (_, g) \<Rightarrow> g | None \<Rightarrow> empty_graph)"

text \<open>\<^verbatim>\<open>state => state.A * state.A\<close>\<close>

definition square :: fn where
  "square = Read ''A'' (\<lambda>a. Read ''A'' (\<lambda>b. Ret (case (a, b) of (Num m, Num n) \<Rightarrow> Num (m * n) | _ \<Rightarrow> NaN)))"

text \<open>
  A request function that starts a computation for the value of \<^verbatim>\<open>state.A\<close> and returns
  its promise, and a graph with the request \<^verbatim>\<open>R: {params: ["A"], func: fetch}\<close>.
\<close>

definition fetch :: fn where
  "fetch = Read ''A'' (\<lambda>a. Ret (Promise (Job (case a of Num n \<Rightarrow> nat n | _ \<Rightarrow> 0))))"

definition request_args :: StateGraphArgs where
  "request_args = \<lparr>arg_derivers = [],
     arg_requests = [(''R'', Some (Explicit \<lparr>params = [''A''], func = Fn fetch, order = None, is_request = False\<rparr>))],
     arg_defaults = None\<rparr>"

definition request_graph :: graph where
  "request_graph = built (StateGraph request_args host0)"

text \<open>The request graph after \<^verbatim>\<open>push({A: 3})\<close>: the request for 3 is pending.\<close>

definition request_pending :: graph where
  "request_pending = pushed (push [(''A'', Num 3)] None request_graph)"

text \<open>
  \<^verbatim>\<open>state => state[k] + 5\<close>, and a graph of two derivers that depend on each other:
  \<^verbatim>\<open>{derivers: {X: state => state.Y + 5, Y: state => state.X + 5}, defaults: {Y: 0}}\<close>.
\<close>

definition add_five :: "StateKey \<Rightarrow> fn" where
  "add_five k = Read k (\<lambda>a. Ret (case a of Num n \<Rightarrow> Num (n + 5) | Undefined \<Rightarrow> NaN | Null \<Rightarrow> Num 5
     | NaN \<Rightarrow> NaN | Str s \<Rightarrow> Str (s @ ''5'') | Promise p \<Rightarrow> Str ''[object Promise]5''))"

definition cycle_args :: StateGraphArgs where
  "cycle_args = \<lparr>arg_derivers = [(''X'', Some (Auto (Fn (add_five ''Y'')))), (''Y'', Some (Auto (Fn (add_five ''X''))))],
     arg_requests = [], arg_defaults = Some [(''Y'', Num 0)]\<rparr>"

definition cycle_graph :: graph where
  "cycle_graph = built (StateGraph cycle_args host0)"







text \<open>
  The request \<^verbatim>\<open>R: {params: ["A"], func: ThrottleRequest(fetch)}\<close> in a host where the
  throttle's cell is the first one, and the graph after \<^verbatim>\<open>push({A: 1})\<close> and after a
  following \<^verbatim>\<open>push({A: 2})\<close>, nothing having settled.
\<close>

definition throttled_fetch :: func where
  "throttled_fetch = fst (ThrottleRequest (Fn fetch) host0)"

definition throttle_args :: StateGraphArgs where
  "throttle_args = \<lparr>arg_derivers = [],
     arg_requests = [(''R'', Some (Explicit \<lparr>params = [''A''], func = throttled_fetch, order = None, is_request = False\<rparr>))],
     arg_defaults = None\<rparr>"

definition throttle_graph :: graph where
  "throttle_graph = built (StateGraph throttle_args (snd (ThrottleRequest (Fn fetch) host0)))"

definition throttle_once :: graph where
  "throttle_once = pushed (push [(''A'', Num 1)] None throttle_graph)"

definition throttle_twice :: graph where
  "throttle_twice = pushed (push [(''A'', Num 2)] None throttle_once)"










text \<open>
  The request graph after \<^verbatim>\<open>watch("R", w1)\<close> and \<^verbatim>\<open>watch_all(w2)\<close>, and that graph after
  \<^verbatim>\<open>push({A: 3})\<close>.
\<close>

definition watched_request :: graph where
  "watched_request = snd (watch_all 2 (snd (watch ''R'' 1 request_graph)))"

definition watched_pending :: graph where
  "watched_pending = pushed (push [(''A'', Num 3)] None watched_request)"



section \<open>Notions of the specification\<close>

text \<open>
  The keys a function reads, in the order it reads them, when every read is answered with
  \<^verbatim>\<open>undefined\<close>, and whether it then throws.
\<close>

primrec reads :: "fn \<Rightarrow> StateKey list" where
  "reads (Ret v) = []"
| "reads (Throw e) = []"
| "reads (Read k c) = k # reads (c Undefined)"

primrec probe_throws :: "fn \<Rightarrow> bool" where
  "probe_throws (Ret v) = False"
| "probe_throws (Throw e) = True"
| "probe_throws (Read k c) = probe_throws (c Undefined)"

fun is_then :: "reaction \<Rightarrow> bool" where
  "is_then (ThenPush key) = True"
| "is_then (ClearFlag c) = False"

text \<open>What no push changes: the derivers, the index, the mode, the watchers, the collation.\<close>

definition same_graph :: "graph \<Rightarrow> graph \<Rightarrow> bool" where
  "same_graph g g' \<longleftrightarrow> derivers g' = derivers g \<and> deps g' = deps g \<and>
     push_default_mode g' = push_default_mode g \<and> watchers g' = watchers g \<and>
     global_watchers g' = global_watchers g \<and> collate (host g') = collate (host g)"


text \<open>
  The dependents of a key in the index, the relation they make, and the keys one gets to
  from the keys of a batch.
\<close>

definition dependents :: "(StateKey \<times> StateKey list) list \<Rightarrow> StateKey \<Rightarrow> StateKey list" where
  "dependents ds n = (case map_of ds n of None \<Rightarrow> [] | Some dep \<Rightarrow> dep)"



text \<open>The mode \<^verbatim>\<open>push\<close> runs in: \<^verbatim>\<open>mode || this.push_default_mode\<close>.\<close>

definition effective_mode :: "graph \<Rightarrow> mode option \<Rightarrow> mode" where
  "effective_mode g m = (case m of None \<Rightarrow> push_default_mode g | Some m \<Rightarrow> m)"





text \<open>In a list, an occurrence of \<open>a\<close> comes before an occurrence of \<open>b\<close>.\<close>

definition before :: "'a \<Rightarrow> 'a \<Rightarrow> 'a list \<Rightarrow> bool" where
  "before a b xs \<longleftrightarrow> (\<exists>us vs ws. xs = us @ a # vs @ b # ws)"

text \<open>
  The cell \<open>c\<close> holds \<^verbatim>\<open>true\<close>: a computation of its throttle has not settled. A function
  value calls the body \<open>f\<close> only behind the throttle of the cell \<open>c\<close>.
\<close>

definition in_flight :: "env \<Rightarrow> nat \<Rightarrow> bool" where
  "in_flight h c \<longleftrightarrow> c < length (in_progress h) \<and> in_progress h ! c"

fun guarded :: "nat \<Rightarrow> fn \<Rightarrow> func \<Rightarrow> bool" where
  "guarded c f (Fn f') = (f' \<noteq> f)"
| "guarded c f (Throttled c' request) = (c' = c \<or> guarded c f request)"



section \<open>Properties\<close>

declare stabilize.simps [simp del]

lemmas push_accurate_eval = push_def push_accurate_def set_add_def assign_def canUpdate_def
  update_def state_get_def dispatch_change_def stabilize.simps js_sort_def tie_break_def Let_def

lemmas collation_eval = localeCompare_def primary_def tertiary_def marks_def digits_def small_def
  capital_def

subsection \<open>Watchers\<close>

lemma count_list_filter_neq: "h \<noteq> f \<Longrightarrow> count_list (filter (\<lambda>x. x \<noteq> f) ws) h = count_list ws h"
  by (induction ws) auto

text \<open>
  C9. The closure returned by \<^verbatim>\<open>watch(name, f)\<close> or \<^verbatim>\<open>watch_all(f)\<close>, called on a graph
  (one that has a watcher list for \<open>name\<close>, as every graph has once \<^verbatim>\<open>watch\<close> was called
  for \<open>name\<close>), returns without error and leaves the list without \<open>f\<close>; calling it
  again changes nothing; every other callback stays, as often as it was there; nothing
  else in the graph changes. Registration itself puts \<open>f\<close> into the list.
\<close>

theorem unsubscribe_idempotent:
  "(\<exists>ws. watchers (snd (watch name f g0)) name = Some ws \<and> f \<in> set ws) \<and>
   f \<in> set (global_watchers (snd (watch_all f g0))) \<and>
   (watchers g name = Some ws \<longrightarrow>
      (\<exists>g' ws'. unsubscribe (fst (watch name f g0)) g = Inr g' \<and>
         unsubscribe (fst (watch name f g0)) g' = Inr g' \<and>
         g' = g\<lparr>watchers := (watchers g)(name \<mapsto> ws')\<rparr> \<and>
         f \<notin> set ws' \<and> (\<forall>h. h \<noteq> f \<longrightarrow> count_list ws' h = count_list ws h))) \<and>
   (\<exists>g' ws'. unsubscribe (fst (watch_all f g0)) g = Inr g' \<and>
         unsubscribe (fst (watch_all f g0)) g' = Inr g' \<and>
         g' = g\<lparr>global_watchers := ws'\<rparr> \<and>
         f \<notin> set ws' \<and> (\<forall>h. h \<noteq> f \<longrightarrow> count_list ws' h = count_list (global_watchers g) h))"
  by (auto simp: watch_def watch_all_def count_list_filter_neq split: option.splits)

theorem unsubscribe_idempotent_witness:
  "\<exists>g1 g2. g1 = snd (watch ''A'' 2 (snd (watch ''A'' 1 empty_graph))) \<and> watchers g1 ''A'' = Some [1, 2] \<and>
     unsubscribe (fst (watch ''A'' 1 empty_graph)) g1 = Inr g2 \<and>
     unsubscribe (fst (watch ''A'' 1 empty_graph)) g2 = Inr g2 \<and> watchers g2 ''A'' = Some [2]"
  using unsubscribe_idempotent [of "''A''" 1 empty_graph "snd (watch ''A'' 2 (snd (watch ''A'' 1 empty_graph)))" "[1, 2]"]
  by (simp add: watch_def empty_graph_def)

subsection \<open>Dependency extraction\<close>

lemma invoke_reporter_fetched: "snd (invoke f PropGetReporter fetched) = fetched @ reads f"
  by (induction f arbitrary: fetched) (auto simp: PropGetReporter_def)

lemma invoke_reporter_throws: "isl (fst (invoke f PropGetReporter fetched)) = probe_throws f"
  by (induction f arbitrary: fetched) (auto simp: PropGetReporter_def)

text \<open>
  C4, as stated, fails: a function that reads \<^verbatim>\<open>state.A\<close> twice gets \<^verbatim>\<open>params\<close>
  \<^verbatim>\<open>["A", "A"]\<close>, since the proxy records every read.
\<close>

theorem ExtractDeriver_params_counterexample:
  "\<exists>d h. ExtractDeriver (Fn square) host0 = (Inr d, h) \<and> params d = [''A'', ''A''] \<and> \<not> distinct (params d)"
  by (simp add: ExtractDeriver_def square_def PropGetReporter_def)

text \<open>
  C4, amended. \<^verbatim>\<open>ExtractDeriver\<close> calls the function once on the reporter. Every read is
  answered with \<^verbatim>\<open>undefined\<close>. When the call does not throw, \<^verbatim>\<open>params\<close> is the list of
  the keys read, one entry for every read in the order of the reads, \<^verbatim>\<open>func\<close> is the
  function, and the value the call returned is nowhere in the result. When the call
  throws, the exception is printed and extraction fails.
\<close>

theorem ExtractDeriver_params:
  "ExtractDeriver (Fn f) h =
     (if probe_throws f
      then (Inl (Error ''could not automatically extract dependencies from function''),
            h\<lparr>calls := calls h @ [f], console := console h @ [projl (fst (invoke f PropGetReporter []))]\<rparr>)
      else (Inr \<lparr>params = reads f, func = Fn f, order = None, is_request = False\<rparr>,
            h\<lparr>calls := calls h @ [f]\<rparr>))"
proof (cases "invoke f PropGetReporter []")
  case (Pair r proplist)
  with invoke_reporter_fetched[of f "[]"] have pl: "proplist = reads f" by simp
  from Pair invoke_reporter_throws[of f "[]"] have thr: "isl r = probe_throws f" by simp
  show ?thesis
    using Pair pl thr by (cases r) (auto simp: ExtractDeriver_def)
qed

theorem ExtractDeriver_params_witness:
  "ExtractDeriver (Fn square) host0 =
     (Inr \<lparr>params = [''A'', ''A''], func = Fn square, order = None, is_request = False\<rparr>,
      host0\<lparr>calls := [square]\<rparr>)"
  using ExtractDeriver_params [of square host0]
  by (simp add: square_def host0_def)

subsection \<open>Requests\<close>

lemma settle_loop_Nil: "settle_loop out [] g = Some g"
  by (subst settle_loop.simps) simp

lemma settle_loop_Cons:
  "settle_loop out (p # rest) g =
     (case react_each (map snd (filter (\<lambda>(q, r). q = p) (reactions (host g)))) p out
             (g\<lparr>host := (host g)\<lparr>reactions := filter (\<lambda>(q, r). q \<noteq> p) (reactions (host g))\<rparr>\<rparr>) of
        None \<Rightarrow> None
      | Some (settled, g') \<Rightarrow> settle_loop out (rest @ settled) g')"
  by (subst settle_loop.simps) simp
lemma react_rejected:
  "\<exists>settled g'. react r p (Rejected reason) g = Some (settled, g') \<and> length settled \<le> 1 \<and>
     state g' = state g \<and> notified (host g') = notified (host g) \<and>
     calls (host g') = calls (host g) \<and> reactions (host g') = reactions (host g) \<and>
     console (host g') = console (host g) @ (if is_then r then [reason] else [])"
  by (cases r) auto

lemma react_each_rejected:
  "\<exists>settled g'. react_each rs p (Rejected reason) g = Some (settled, g') \<and>
     length settled \<le> length rs \<and>
     state g' = state g \<and> notified (host g') = notified (host g) \<and>
     calls (host g') = calls (host g) \<and> reactions (host g') = reactions (host g) \<and>
     console (host g') = console (host g) @ replicate (length (filter is_then rs)) reason"
proof (induction rs arbitrary: g)
  case Nil
  then show ?case by simp
next
  case (Cons r rs)
  from react_rejected[of r p reason g] obtain s1 g1 where
    1: "react r p (Rejected reason) g = Some (s1, g1)" "length s1 \<le> 1"
       "state g1 = state g" "notified (host g1) = notified (host g)"
       "calls (host g1) = calls (host g)" "reactions (host g1) = reactions (host g)"
       "console (host g1) = console (host g) @ (if is_then r then [reason] else [])"
    by blast
  from Cons.IH[of g1] obtain s2 g2 where
    2: "react_each rs p (Rejected reason) g1 = Some (s2, g2)" "length s2 \<le> length rs"
       "state g2 = state g1" "notified (host g2) = notified (host g1)"
       "calls (host g2) = calls (host g1)" "reactions (host g2) = reactions (host g1)"
       "console (host g2) = console (host g1) @ replicate (length (filter is_then rs)) reason"
    by blast
  from 1 2 show ?case by (simp add: replicate_app_Cons_same)
qed

lemma settle_loop_rejected:
  "\<exists>g' n. settle_loop (Rejected reason) ps g = Some g' \<and>
     state g' = state g \<and> notified (host g') = notified (host g) \<and>
     calls (host g') = calls (host g) \<and>
     console (host g') = console (host g) @ replicate n reason \<and>
     (\<forall>p rest key. ps = p # rest \<longrightarrow> (p, ThenPush key) \<in> set (reactions (host g)) \<longrightarrow> 0 < n)"
proof (induction "2 * length (reactions (host g)) + length ps" arbitrary: ps g rule: less_induct)
  case less
  show ?case
  proof (cases ps)
    case Nil
    then show ?thesis by (simp add: settle_loop_Nil)
  next
    case (Cons p rest)
    let ?rs = "filter (\<lambda>(q, r). q = p) (reactions (host g))"
    let ?g1 = "g\<lparr>host := (host g)\<lparr>reactions := filter (\<lambda>(q, r). q \<noteq> p) (reactions (host g))\<rparr>\<rparr>"
    let ?k = "length (filter is_then (map snd ?rs))"
    from react_each_rejected[of "map snd ?rs" p reason ?g1] obtain settled g2 where
      r: "react_each (map snd ?rs) p (Rejected reason) ?g1 = Some (settled, g2)"
         "length settled \<le> length ?rs"
         "state g2 = state g" "notified (host g2) = notified (host g)"
         "calls (host g2) = calls (host g)"
         "reactions (host g2) = filter (\<lambda>(q, r). q \<noteq> p) (reactions (host g))"
         "console (host g2) = console (host g) @ replicate ?k reason"
      by auto
    have "length ?rs + length (filter (\<lambda>(q, r). q \<noteq> p) (reactions (host g))) = length (reactions (host g))"
      using sum_length_filter_compl[of "\<lambda>(q, r). q = p" "reactions (host g)"]
      by (simp add: case_prod_unfold)
    with r have "2 * length (reactions (host g2)) + length (rest @ settled)
        < 2 * length (reactions (host g)) + length ps"
      using Cons by simp
    from less[OF this] obtain g' n where
      l: "settle_loop (Rejected reason) (rest @ settled) g2 = Some g'"
         "state g' = state g2" "notified (host g') = notified (host g2)"
         "calls (host g') = calls (host g2)"
         "console (host g') = console (host g2) @ replicate n reason"
      by blast
    have pos: "0 < ?k" if "(p, ThenPush key) \<in> set (reactions (host g))" for key
    proof -
      from that have "ThenPush key \<in> set (filter is_then (map snd ?rs))" by force
      then show ?thesis by (rule length_pos_if_in_set)
    qed
    have "settle_loop (Rejected reason) ps g = Some g'"
      using Cons r l by (simp add: settle_loop_Cons)
    moreover have "console (host g') = console (host g) @ replicate (?k + n) reason"
      using r l by (simp add: replicate_add)
    ultimately show ?thesis
      using r l Cons pos by (intro exI[of _ g'] exI[of _ "?k + n"]) auto
  qed
qed
lemma request_graph_eq:
  "request_graph = \<lparr>state = Map.empty, push_default_mode = Accurate,
     derivers = [(''R'', \<lparr>params = [''A''], func = Fn fetch, order = None, is_request = True\<rparr>)],
     deps = [(''A'', [''R''])], global_watchers = [], watchers = Map.empty, host = host0\<rparr>"
  by (simp add: request_graph_def built_def StateGraph_def request_args_def spread_def build_deps_def)

lemma request_pending_eq:
  "request_pending = request_graph\<lparr>state := [''A'' \<mapsto> Num 3],
     host := host0\<lparr>calls := [fetch], reactions := [(Job 3, ThenPush ''R'')]\<rparr>\<rparr>"
  by (simp add: request_pending_def pushed_def request_graph_eq push_accurate_eval fetch_def host0_def)

text \<open>
  C7. Settling a promise with a failure returns normally, writes no value, calls no
  watcher and calls no function, whatever callbacks are attached to the promise or to the
  promises derived from it; all it prints is the reason, and it prints it when the chain
  of \<^verbatim>\<open>update\<close> is attached to the promise. The \<^verbatim>\<open>update\<close> that attached the chain had
  returned without an exception.
\<close>

theorem rejected_request_is_logged:
  "(\<exists>g' n. settle p (Rejected reason) g = Some g' \<and>
      state g' = state g \<and> notified (host g') = notified (host g) \<and>
      calls (host g') = calls (host g) \<and>
      console (host g') = console (host g) @ replicate n reason \<and>
      ((\<exists>key. (p, ThenPush key) \<in> set (reactions (host g))) \<longrightarrow> 0 < n)) \<and>
   (map_of (derivers g) key = Some d \<longrightarrow> is_request d \<longrightarrow> key \<notin> set (map fst newState) \<longrightarrow>
      call (func d) state_get (state g) (host g) = (Inr (Promise p), s, h) \<longrightarrow>
      update key newState g = (None, g\<lparr>host := h\<lparr>reactions := reactions h @ [(p, ThenPush key)]\<rparr>\<rparr>))"
proof -
  from settle_loop_rejected[of reason "[p]" g] have
    "\<exists>g' n. settle p (Rejected reason) g = Some g' \<and>
      state g' = state g \<and> notified (host g') = notified (host g) \<and>
      calls (host g') = calls (host g) \<and>
      console (host g') = console (host g) @ replicate n reason \<and>
      ((\<exists>key. (p, ThenPush key) \<in> set (reactions (host g))) \<longrightarrow> 0 < n)"
    unfolding settle_def by blast
  then show ?thesis
    by (auto simp: update_def)
qed

theorem rejected_request_is_logged_witness:
  "(\<exists>g'. settle (Job 3) (Rejected (Error ''timeout'')) request_pending = Some g' \<and>
     state g' = state request_pending \<and> notified (host g') = [] \<and>
     console (host g') = [Error ''timeout'']) \<and>
   update ''R'' [(''A'', Num 3)] (request_graph\<lparr>state := [''A'' \<mapsto> Num 3]\<rparr>) = (None, request_pending)"
proof -
  have "(Job 3, ThenPush ''R'') \<in> set (reactions (host request_pending))"
    by (simp add: request_pending_eq)
  with rejected_request_is_logged [THEN conjunct1, of "Job 3" "Error ''timeout''" request_pending]
  obtain g' n where g': "settle (Job 3) (Rejected (Error ''timeout'')) request_pending = Some g'"
    "state g' = state request_pending" "notified (host g') = notified (host request_pending)"
    "console (host g') = console (host request_pending) @ replicate n (Error ''timeout'')" "0 < n"
    by blast
  have "settle (Job 3) (Rejected (Error ''timeout'')) request_pending =
      Some (request_pending\<lparr>host := (host request_pending)\<lparr>reactions := [], console := [Error ''timeout'']\<rparr>\<rparr>)"
    by (simp add: settle_def settle_loop_Cons settle_loop_Nil request_pending_eq request_graph_eq host0_def)
  with g' have 1: "\<exists>g'. settle (Job 3) (Rejected (Error ''timeout'')) request_pending = Some g' \<and>
     state g' = state request_pending \<and> notified (host g') = [] \<and>
     console (host g') = [Error ''timeout'']"
    by (simp add: request_pending_eq host0_def request_graph_eq)
  let ?d = "\<lparr>params = [''A''], func = Fn fetch, order = None, is_request = True\<rparr>"
  let ?g = "request_graph\<lparr>state := [''A'' \<mapsto> Num 3]\<rparr>"
  have d: "map_of (derivers ?g) ''R'' = Some ?d" by (simp add: request_graph_eq)
  have r: "is_request ?d" by simp
  have k: "''R'' \<notin> set (map fst [(''A'', Num 3)])" by simp
  have c: "call (func ?d) state_get (state ?g) (host ?g) = (Inr (Promise (Job 3)), state ?g, host0\<lparr>calls := [fetch]\<rparr>)"
    by (simp add: fetch_def state_get_def request_graph_eq host0_def)
  from rejected_request_is_logged [THEN conjunct2, THEN mp, OF d, THEN mp, OF r, THEN mp, OF k, THEN mp, OF c]
  have 2: "update ''R'' [(''A'', Num 3)] ?g = (None, request_pending)"
    by (simp add: request_pending_eq request_graph_eq host0_def)
  from 1 2 show ?thesis ..
qed


subsection \<open>What a push leaves alone\<close>

lemma call_frame:
  "call f get s h = (r, s', h') \<Longrightarrow>
     collate h' = collate h \<and> console h' = console h \<and> notified h' = notified h"
proof (induction f arbitrary: r s' h')
  case (Fn x)
  then show ?case by (auto split: prod.splits)
next
  case (Throttled c f)
  show ?case
  proof (cases "c < length (in_progress h) \<and> in_progress h ! c")
    case True
    with Throttled.prems show ?thesis by simp
  next
    case False
    obtain r1 s1 h1 where c1: "call f get s h = (r1, s1, h1)" by (cases "call f get s h") auto
    from Throttled.IH[OF c1] have "collate h1 = collate h \<and> console h1 = console h \<and> notified h1 = notified h" .
    with Throttled.prems False c1 show ?thesis
      by (auto simp: Let_def split: sum.splits if_splits StateValue.splits)
  qed
qed


lemma same_graph_trans: "same_graph g g' \<Longrightarrow> same_graph g' g'' \<Longrightarrow> same_graph g g''"
  by (simp add: same_graph_def)

lemma update_frame:
  assumes "update k b g = (e, g')"
  shows "same_graph g g'" and "\<And>j. j \<noteq> k \<Longrightarrow> state g' j = state g j"
  using assms
  by (auto simp: update_def same_graph_def dispatch_change_def
      split: option.splits if_splits prod.splits sum.splits StateValue.splits dest: call_frame)





subsection \<open>Rules for the loops of the accurate mode\<close>

lemma scan_rule:
  assumes "scan b us t ordr a g = (None, t', ordr', a', g')"
    and "mset us \<subseteq># mset t"
    and "I t ordr g"
    and step: "\<And>u t ordr g g'. I t ordr g \<Longrightarrow> u \<in> set t \<Longrightarrow> canUpdate g t u \<Longrightarrow>
                 update u b g = (None, g') \<Longrightarrow> I (remove1 u t) (ordr @ [u]) g'"
  shows "I t' ordr' g'"
  using assms(1-3)
proof (induction us arbitrary: t ordr a g)
  case Nil
  then show ?case by simp
next
  case (Cons u us)
  from Cons.prems(2) have u_in: "u \<in> set t"
    by (metis list.set_intros(1) mset_subset_eqD set_mset_mset)
  from Cons.prems(2) have rest: "mset us \<subseteq># mset (remove1 u t)"
    by (simp add: insert_subset_eq_iff)
  from Cons.prems(2) have rest': "mset us \<subseteq># mset t"
    by (metis mset.simps(2) mset_subset_eq_insertD subset_mset.less_imp_le)
  show ?case
  proof (cases "canUpdate g t u")
    case False
    with Cons.prems(1) have "scan b us t ordr a g = (None, t', ordr', a', g')" by simp
    from Cons.IH[OF this rest' Cons.prems(3)] show ?thesis .
  next
    case True
    obtain eo g1 where up: "update u b g = (eo, g1)" by (cases "update u b g") auto
    show ?thesis
    proof (cases eo)
      case (Some err)
      with True up Cons.prems(1) show ?thesis by simp
    next
      case None
      with True up Cons.prems(1)
      have sc: "scan b us (remove1 u t) (ordr @ [u]) True g1 = (None, t', ordr', a', g')" by simp
      from step[OF Cons.prems(3) u_in True] up None have "I (remove1 u t) (ordr @ [u]) g1" by simp
      from Cons.IH[OF sc rest this] show ?thesis .
    qed
  qed
qed

lemma scan_any: "scan b us t ordr True g = (e, t', ordr', a', g') \<Longrightarrow> a'"
proof (induction us arbitrary: t ordr g)
  case Nil
  then show ?case by simp
next
  case (Cons u us)
  then show ?case
    by (auto split: if_splits prod.splits option.splits)
qed

lemma scan_stuck:
  "scan b us t ordr False g = (None, t', ordr', False, g') \<Longrightarrow>
     t' = t \<and> ordr' = ordr \<and> g' = g \<and> (\<forall>u \<in> set us. \<not> canUpdate g t u)"
proof (induction us)
  case Nil
  then show ?case by simp
next
  case (Cons u us)
  show ?case
  proof (cases "canUpdate g t u")
    case False
    with Cons show ?thesis by simp
  next
    case True
    obtain eo g1 where up: "update u b g = (eo, g1)" by (cases "update u b g") auto
    show ?thesis
    proof (cases eo)
      case (Some err)
      with True up Cons.prems show ?thesis by simp
    next
      case None
      with True up Cons.prems
      have "scan b us (remove1 u t) (ordr @ [u]) True g1 = (None, t', ordr', False, g')" by simp
      from scan_any[OF this] show ?thesis by simp
    qed
  qed
qed

lemma stabilize_rule:
  assumes "stabilize b t ordr g = (None, t', ordr', g')"
    and "I t ordr g"
    and step: "\<And>u t ordr g g'. I t ordr g \<Longrightarrow> u \<in> set t \<Longrightarrow> canUpdate g t u \<Longrightarrow>
                 update u b g = (None, g') \<Longrightarrow> I (remove1 u t) (ordr @ [u]) g'"
  shows "I t' ordr' g' \<and> (\<forall>u \<in> set t'. \<not> canUpdate g' t' u)"
  using assms
proof (induction b t ordr g rule: stabilize.induct)
  case (1 b t ordr g)
  show ?case
  proof (cases "t = []")
    case True
    with "1.prems" show ?thesis by (simp add: stabilize.simps)
  next
    case False
    obtain e t1 o1 a1 g1 where sc: "scan b t t ordr False g = (e, t1, o1, a1, g1)"
      by (cases "scan b t t ordr False g") auto
    show ?thesis
    proof (cases e)
      case (Some err)
      with False sc "1.prems"(1) show ?thesis by (simp add: stabilize.simps)
    next
      case None
      with sc have sc': "scan b t t ordr False g = (None, t1, o1, a1, g1)" by simp
      have I1: "I t1 o1 g1"
      proof (rule scan_rule[where I = I, OF sc' _ "1.prems"(2)])
        show "mset t \<subseteq># mset t" by simp
      qed (rule "1.prems"(3); assumption)
      show ?thesis
      proof (cases a1)
        case False
        with sc' have sc'': "scan b t t ordr False g = (None, t1, o1, False, g1)" by simp
        from scan_stuck[OF sc''] I1 \<open>t \<noteq> []\<close> sc'' "1.prems"(1)
        show ?thesis by (simp add: stabilize.simps)
      next
        case True
        with \<open>t \<noteq> []\<close> sc' "1.prems"(1) have "stabilize b t1 o1 g1 = (None, t', ordr', g')"
          by (simp add: stabilize.simps)
        from "1.IH"[OF \<open>t \<noteq> []\<close> sc'[symmetric] refl refl refl refl _ this I1 "1.prems"(3)] True
        show ?thesis by simp
      qed
    qed
  qed
qed

lemma update_each_rule:
  assumes "update_each b us ordr g = (None, ordr', g')"
    and "J us ordr g"
    and step: "\<And>u us ordr g g'. J (u # us) ordr g \<Longrightarrow> update u b g = (None, g') \<Longrightarrow> J us (ordr @ [u]) g'"
  shows "J [] ordr' g'"
  using assms(1,2)
proof (induction us arbitrary: ordr g)
  case Nil
  then show ?case by simp
next
  case (Cons u us)
  obtain eo g1 where up: "update u b g = (eo, g1)" by (cases "update u b g") auto
  with Cons.prems(1) have eo: "eo = None" by (cases eo) auto
  with up Cons.prems(1) have "update_each b us (ordr @ [u]) g1 = (None, ordr', g')" by simp
  moreover from step[OF Cons.prems(2)] up eo have "J us (ordr @ [u]) g1" by simp
  ultimately show ?case by (rule Cons.IH)
qed

lemma mset_insert_sorted: "mset (insert_sorted le x ys) = add_mset x (mset ys)"
  by (induction ys) auto

lemma mset_js_sort: "mset (js_sort le xs) = mset xs"
  by (induction xs) (auto simp: js_sort_def mset_insert_sorted)









subsection \<open>Termination and the cycle fallback\<close>

lemmas construct_eval = built_def StateGraph_def ExtractDeriver_def PropGetReporter_def spread_def build_deps_def

lemma cycle_graph_eq:
  "cycle_graph = \<lparr>state = [''Y'' \<mapsto> Num 10, ''X'' \<mapsto> Num 5], push_default_mode = Accurate,
     derivers = [(''X'', \<lparr>params = [''Y''], func = Fn (add_five ''Y''), order = None, is_request = False\<rparr>),
                 (''Y'', \<lparr>params = [''X''], func = Fn (add_five ''X''), order = None, is_request = False\<rparr>)],
     deps = [(''Y'', [''X'']), (''X'', [''Y''])], global_watchers = [], watchers = Map.empty,
     host = host0\<lparr>calls := [add_five ''Y'', add_five ''X'', add_five ''Y'', add_five ''X'']\<rparr>\<rparr>"
  unfolding cycle_graph_def cycle_args_def
  by (simp add: construct_eval push_accurate_eval collation_eval host0_def add_five_def fun_upd_twist)


lemma cycle_stabilize_eq:
  "stabilize [(''X'', Num 1)] (closure_loop (deps cycle_graph) [] (map fst [(''X'', Num 1)])) []
      (cycle_graph\<lparr>state := assign (state cycle_graph) [(''X'', Num 1)]\<rparr>) =
      (None, [''X'', ''Y''], [], cycle_graph\<lparr>state := assign (state cycle_graph) [(''X'', Num 1)]\<rparr>)"
  by (simp add: cycle_graph_eq push_accurate_eval)


lemma collation_table:
  "distinct (marks @ digits @ small @ capital) \<and> length (marks @ digits @ small @ capital) = 95 \<and>
   (\<forall>c \<in> set (marks @ digits @ small @ capital). 32 \<le> (of_char c :: nat) \<and> (of_char c :: nat) \<le> 126)"
  by code_simp



















subsection \<open>The pending set and the index\<close>






subsection \<open>A rule for the loop of the fast mode\<close>



lemma push_fast_loop_rule:
  assumes "push_fast_loop b q vis g = Some (Inr ks, g')"
    and "I q vis g"
    and step: "\<And>n rest vis g g'. I (n # rest) vis g \<Longrightarrow> update n b g = (None, g') \<Longrightarrow>
                 I (rest @ dependents (deps g') n) (vis @ [n]) g'"
  shows "I [] ks g'"
proof -
  define P where "P = (\<lambda>(b' :: StateMap) q vis g (y :: (exn + StateKey list) \<times> graph).
    b' = b \<longrightarrow> (\<forall>ks g'. y = (Inr ks, g') \<longrightarrow> I q vis g \<longrightarrow> I [] ks g'))"
  have "P b q vis g (Inr ks, g')"
  proof (rule push_fast_loop.raw_induct[where P = P, OF _ assms(1)])
    fix loop newState queue visited g y
    assume IH: "\<And>b' q vis g y. loop b' q vis g = Some y \<Longrightarrow> P b' q vis g y"
      and body: "(case queue of [] \<Rightarrow> Some (Inr visited, g)
        | n # rest \<Rightarrow>
            (case update n newState g of
               (None, g') \<Rightarrow> loop newState
                 (rest @ (case map_of (deps g') n of None \<Rightarrow> [] | Some dep \<Rightarrow> dep)) (visited @ [n]) g'
             | (Some e, g') \<Rightarrow> Some (Inl e, g'))) = Some y"
    show "P newState queue visited g y"
      unfolding P_def
    proof (intro impI allI)
      fix ks g'
      assume b: "newState = b" and y: "y = (Inr ks, g')" and I: "I queue visited g"
      show "I [] ks g'"
      proof (cases queue)
        case Nil
        with body y I show ?thesis by simp
      next
        case (Cons n rest)
        obtain eo g1 where up: "update n newState g = (eo, g1)" by (cases "update n newState g") auto
        with Cons body y have eo: "eo = None" by (cases eo) auto
        with Cons up body
        have "loop newState (rest @ dependents (deps g1) n) (visited @ [n]) g1 = Some y"
          by (simp add: dependents_def)
        from IH[OF this] b y
        have "I (rest @ dependents (deps g1) n) (visited @ [n]) g1 \<longrightarrow> I [] ks g'"
          by (simp add: P_def)
        moreover from step[of n rest visited g g1] I Cons up eo b
        have "I (rest @ dependents (deps g1) n) (visited @ [n]) g1" by simp
        ultimately show ?thesis by simp
      qed
    qed
  qed
  with assms(2) show ?thesis by (simp add: P_def)
qed



subsection \<open>What a push returns\<close>


lemma push_accurate_rule:
  assumes "push_accurate b g = (Inr ks, g')"
    and "I (closure_loop (deps g) [] (map fst b)) [] (g\<lparr>state := assign (state g) b\<rparr>)"
    and step: "\<And>u t ordr g1 g2. I t ordr g1 \<Longrightarrow> u \<in> set t \<Longrightarrow> update u b g1 = (None, g2) \<Longrightarrow>
                 I (remove1 u t) (ordr @ [u]) g2"
    and perm: "\<And>t t' ordr g1. I t ordr g1 \<Longrightarrow> mset t = mset t' \<Longrightarrow> I t' ordr g1"
  shows "I [] ks g'"
proof -
  let ?p = "closure_loop (deps g) [] (map fst b)"
  let ?g1 = "g\<lparr>state := assign (state g) b\<rparr>"
  obtain e rem ks1 g2 where st: "stabilize b ?p [] ?g1 = (e, rem, ks1, g2)"
    by (cases "stabilize b ?p [] ?g1") auto
  with assms(1) have e: "e = None" by (cases e) (auto simp: push_accurate_def)
  note st' = st[unfolded e]
  have I2: "I rem ks1 g2"
    using stabilize_rule[where I = I, OF st' assms(2)] step by blast
  show ?thesis
  proof (cases "rem = []")
    case True
    with assms(1) st' I2 show ?thesis by (simp add: push_accurate_def)
  next
    case False
    let ?s = "js_sort (\<lambda>a b. collate (host g2) (tie_break g2 a) (tie_break g2 b)) rem"
    obtain e3 o3 g3 where ue: "update_each b ?s ks1 g2 = (e3, o3, g3)"
      by (cases "update_each b ?s ks1 g2") auto
    with assms(1) st' False have "e3 = None" "o3 = ks" "g3 = g'"
      by (cases e3; simp add: push_accurate_def)+
    with ue have ue': "update_each b ?s ks1 g2 = (None, ks, g')" by simp
    have "I ?s ks1 g2" by (rule perm[OF I2]) (simp add: mset_js_sort)
    from update_each_rule[where J = I, OF ue' this] step show ?thesis
      by (metis list.set_intros(1) remove1.simps(2))
  qed
qed
lemma push_preserves:
  assumes "push b m g = Some (Inr ks, g')"
    and "Q (g\<lparr>state := assign (state g) b\<rparr>)"
    and step: "\<And>n g1 g2. Q g1 \<Longrightarrow> update n b g1 = (None, g2) \<Longrightarrow> Q g2"
  shows "Q g'"
proof (cases "effective_mode g m")
  case Fast
  with assms(1) have "push_fast_loop b (map fst b) [] (g\<lparr>state := assign (state g) b\<rparr>) = Some (Inr ks, g')"
    by (simp add: push_def push_fast_def effective_mode_def)
  from push_fast_loop_rule[where I = "\<lambda>_ _. Q", OF this assms(2)] step show ?thesis by blast
next
  case Accurate
  with assms(1) have "push_accurate b g = (Inr ks, g')"
    by (simp add: push_def effective_mode_def)
  from push_accurate_rule[where I = "\<lambda>_ _. Q", OF this assms(2)] step show ?thesis by blast
qed










subsection \<open>The index of a constructed graph\<close>







subsection \<open>Propagation to a dependent\<close>

lemma invoke_state_get: "snd (invoke f state_get s) = s"
  by (induction f arbitrary: s) (auto simp: state_get_def)














subsection \<open>Propagation along a chain\<close>






lemma before_iff: "before a b xs \<longleftrightarrow> b \<in> set (drop 1 (dropWhile (\<lambda>x. x \<noteq> a) xs))"
proof
  assume "before a b xs"
  then obtain us vs ws where xs: "xs = us @ a # vs @ b # ws" unfolding before_def by blast
  show "b \<in> set (drop 1 (dropWhile (\<lambda>x. x \<noteq> a) xs))"
  proof (cases "a \<in> set us")
    case False
    then have "dropWhile (\<lambda>x. x \<noteq> a) xs = a # vs @ b # ws"
      unfolding xs by (auto simp: dropWhile_append3)
    then show ?thesis by simp
  next
    case True
    then obtain u1 u2 where us: "us = u1 @ a # u2" "a \<notin> set u1"
      by (auto dest: split_list_first)
    then have "dropWhile (\<lambda>x. x \<noteq> a) xs = a # u2 @ a # vs @ b # ws"
      unfolding xs by (auto simp: dropWhile_append3)
    then show ?thesis by simp
  qed
next
  assume b: "b \<in> set (drop 1 (dropWhile (\<lambda>x. x \<noteq> a) xs))"
  have ne: "dropWhile (\<lambda>x. x \<noteq> a) xs \<noteq> []"
  proof
    assume "dropWhile (\<lambda>x. x \<noteq> a) xs = []"
    with b show False by simp
  qed
  then obtain h r where hr: "dropWhile (\<lambda>x. x \<noteq> a) xs = h # r"
    by (cases "dropWhile (\<lambda>x. x \<noteq> a) xs") auto
  from hd_dropWhile[OF ne] hr have "h = a" by simp
  with hr have r: "dropWhile (\<lambda>x. x \<noteq> a) xs = a # r" by simp
  with b have "b \<in> set r" by simp
  then obtain vs ws where "r = vs @ b # ws" by (auto dest: split_list)
  with r takeWhile_dropWhile_id[of "\<lambda>x. x \<noteq> a" xs]
  have "xs = takeWhile (\<lambda>x. x \<noteq> a) xs @ a # vs @ b # ws"
    by simp
  then show "before a b xs" unfolding before_def by blast
qed







subsection \<open>The throttle\<close>

lemma call_in_flight:
  "in_flight h c \<Longrightarrow> call (Throttled c request) get s h = (Inr Null, s, h)"
  by (simp add: in_flight_def)

lemma call_keeps_flags:
  "call fn get s h = (r, s', h') \<Longrightarrow> in_flight h c \<Longrightarrow> in_flight h' c"
proof (induction fn arbitrary: r s' h')
  case (Fn x)
  then show ?case by (auto simp: in_flight_def split: prod.splits)
next
  case (Throttled c' fn)
  show ?case
  proof (cases "c' < length (in_progress h) \<and> in_progress h ! c'")
    case True
    with Throttled.prems show ?thesis by simp
  next
    case False
    obtain r1 s1 h1 where c1: "call fn get s h = (r1, s1, h1)" by (cases "call fn get s h") auto
    from Throttled.IH[OF c1 Throttled.prems(2)] have h1: "in_flight h1 c" .
    then have "in_flight (h1\<lparr>in_progress := (in_progress h1)[c' := True]\<rparr>) c"
      by (cases "c = c'") (auto simp: in_flight_def)
    then have "in_flight (h1\<lparr>in_progress := (in_progress h1)[c' := True],
        reactions := reactions h1 @ [(q, ClearFlag c')]\<rparr>) c" for q
      by (simp add: in_flight_def)
    with \<open>in_flight (h1\<lparr>in_progress := (in_progress h1)[c' := True]\<rparr>) c\<close> h1
      Throttled.prems(1) False c1 show ?thesis
      by (auto simp: Let_def split: sum.splits if_splits StateValue.splits)
  qed
qed

lemma call_guarded:
  "call fn get s h = (r, s', h') \<Longrightarrow> in_flight h c \<Longrightarrow> guarded c f fn \<Longrightarrow>
     count_list (calls h') f = count_list (calls h) f"
proof (induction fn arbitrary: r s' h')
  case (Fn x)
  then show ?case by (auto split: prod.splits)
next
  case (Throttled c' fn)
  show ?case
  proof (cases "c' < length (in_progress h) \<and> in_progress h ! c'")
    case True
    with Throttled.prems show ?thesis by simp
  next
    case False
    with Throttled.prems(2) have "c' \<noteq> c" by (auto simp: in_flight_def)
    with Throttled.prems(3) have g: "guarded c f fn" by simp
    obtain r1 s1 h1 where c1: "call fn get s h = (r1, s1, h1)" by (cases "call fn get s h") auto
    from Throttled.IH[OF c1 Throttled.prems(2) g] have "count_list (calls h1) f = count_list (calls h) f" .
    with Throttled.prems(1) False c1 show ?thesis
      by (auto simp: Let_def split: sum.splits if_splits StateValue.splits)
  qed
qed

lemma update_guarded:
  assumes "update k b g = (e, g')" and "in_flight (host g) c"
    and "\<forall>(k, d) \<in> set (derivers g). guarded c f (func d)"
  shows "in_flight (host g') c \<and> count_list (calls (host g')) f = count_list (calls (host g)) f"
proof (cases "map_of (derivers g) k")
  case None
  with assms show ?thesis by (simp add: update_def)
next
  case (Some d)
  then have "(k, d) \<in> set (derivers g)" by (rule map_of_SomeD)
  with assms(3) have gd: "guarded c f (func d)" by auto
  obtain r s h where c: "call (func d) state_get (state g) (host g) = (r, s, h)"
    by (cases "call (func d) state_get (state g) (host g)") auto
  from call_keeps_flags[OF c assms(2)] call_guarded[OF c assms(2) gd]
  have h: "in_flight h c" "count_list (calls h) f = count_list (calls (host g)) f" by auto
  from assms(1,2) Some c h show ?thesis
    by (auto simp: update_def dispatch_change_def in_flight_def
        split: if_splits sum.splits StateValue.splits)
qed

lemma push_guarded:
  assumes "push b m g = Some (Inr ks, g')" and "in_flight (host g) c"
    and "\<forall>(k, d) \<in> set (derivers g). guarded c f (func d)"
  shows "in_flight (host g') c \<and> count_list (calls (host g')) f = count_list (calls (host g)) f"
proof -
  let ?Q = "\<lambda>g1. same_graph g g1 \<and> in_flight (host g1) c \<and>
     count_list (calls (host g1)) f = count_list (calls (host g)) f"
  have "?Q g'"
  proof (rule push_preserves[where Q = ?Q, OF assms(1)])
    from assms(2) show "?Q (g\<lparr>state := assign (state g) b\<rparr>)" by (simp add: same_graph_def)
  next
    fix n g1 g2
    assume Q: "?Q g1" and up: "update n b g1 = (None, g2)"
    from Q assms(3) have "\<forall>(k, d) \<in> set (derivers g1). guarded c f (func d)"
      by (simp add: same_graph_def)
    from update_guarded[OF up _ this] Q update_frame(1)[OF up]
    show "?Q g2" by (auto intro: same_graph_trans)
  qed
  then show ?thesis by simp
qed

lemma react_rejected_flags:
  assumes "react r p (Rejected reason) g = Some (settled, g')"
  shows "in_flight (host g') c \<longleftrightarrow> in_flight (host g) c \<and> r \<noteq> ClearFlag c"
proof (cases r)
  case (ThenPush key)
  with assms show ?thesis by (auto simp: in_flight_def)
next
  case (ClearFlag c0)
  with assms show ?thesis by (cases "c = c0") (auto simp: in_flight_def)
qed

lemma react_each_rejected_flags:
  "react_each rs p (Rejected reason) g = Some (settled, g') \<Longrightarrow>
     in_flight (host g') c \<longleftrightarrow> in_flight (host g) c \<and> ClearFlag c \<notin> set rs"
proof (induction rs arbitrary: g settled)
  case Nil
  then show ?case by simp
next
  case (Cons r rs)
  from Cons.prems obtain s1 g1 s2 where
    1: "react r p (Rejected reason) g = Some (s1, g1)" and
    2: "react_each rs p (Rejected reason) g1 = Some (s2, g')"
    by (auto split: option.splits prod.splits)
  from react_rejected_flags[OF 1, of c] Cons.IH[OF 2] show ?case by auto
qed

lemma settle_loop_rejected_flags:
  "settle_loop (Rejected reason) ps g = Some g' \<Longrightarrow>
     (in_flight (host g') c \<longrightarrow> in_flight (host g) c) \<and>
     (\<forall>p rest. ps = p # rest \<longrightarrow> (p, ClearFlag c) \<in> set (reactions (host g)) \<longrightarrow> \<not> in_flight (host g') c)"
proof (induction "2 * length (reactions (host g)) + length ps" arbitrary: ps g rule: less_induct)
  case less
  show ?case
  proof (cases ps)
    case Nil
    with less.prems show ?thesis by (simp add: settle_loop_Nil)
  next
    case (Cons p rest)
    let ?rs = "filter (\<lambda>(q, r). q = p) (reactions (host g))"
    let ?g1 = "g\<lparr>host := (host g)\<lparr>reactions := filter (\<lambda>(q, r). q \<noteq> p) (reactions (host g))\<rparr>\<rparr>"
    from react_each_rejected[of "map snd ?rs" p reason ?g1] obtain settled g2 where
      r: "react_each (map snd ?rs) p (Rejected reason) ?g1 = Some (settled, g2)"
         "length settled \<le> length ?rs"
         "reactions (host g2) = filter (\<lambda>(q, r). q \<noteq> p) (reactions (host g))"
      by auto
    have "length ?rs + length (filter (\<lambda>(q, r). q \<noteq> p) (reactions (host g))) = length (reactions (host g))"
      using sum_length_filter_compl[of "\<lambda>(q, r). q = p" "reactions (host g)"]
      by (simp add: case_prod_unfold)
    with r have m: "2 * length (reactions (host g2)) + length (rest @ settled)
        < 2 * length (reactions (host g)) + length ps"
      using Cons by simp
    from less.prems Cons r(1) have l: "settle_loop (Rejected reason) (rest @ settled) g2 = Some g'"
      by (simp add: settle_loop_Cons)
    from less.hyps[OF m l] have mono: "in_flight (host g') c \<longrightarrow> in_flight (host g2) c" by simp
    from react_each_rejected_flags[OF r(1), of c]
    have f2: "in_flight (host g2) c \<longleftrightarrow> in_flight (host g) c \<and> ClearFlag c \<notin> set (map snd ?rs)"
      by (simp add: in_flight_def)
    have "ClearFlag c \<in> set (map snd ?rs)" if "(p, ClearFlag c) \<in> set (reactions (host g))"
      using that by force
    with mono f2 Cons show ?thesis by auto
  qed
qed

lemma react_clears:
  "\<exists>g'. react (ClearFlag c) p out g = Some ([Finally p c], g') \<and> \<not> in_flight (host g') c \<and>
     state g' = state g \<and> calls (host g') = calls (host g)"
  by (simp add: in_flight_def)

lemma throttled_fetch_eq: "throttled_fetch = Throttled 0 (Fn fetch)"
  by (simp add: throttled_fetch_def ThrottleRequest_def host0_def)

lemma throttle_graph_eq:
  "throttle_graph = \<lparr>state = Map.empty, push_default_mode = Accurate,
     derivers = [(''R'', \<lparr>params = [''A''], func = Throttled 0 (Fn fetch), order = None, is_request = True\<rparr>)],
     deps = [(''A'', [''R''])], global_watchers = [], watchers = Map.empty,
     host = host0\<lparr>in_progress := [False]\<rparr>\<rparr>"
  by (simp add: throttle_graph_def throttle_args_def throttled_fetch_eq ThrottleRequest_def construct_eval host0_def)

lemma throttle_once_eq:
  "throttle_once = throttle_graph\<lparr>state := [''A'' \<mapsto> Num 1],
     host := host0\<lparr>in_progress := [True], calls := [fetch],
       reactions := [(Job 1, ClearFlag 0), (Finally (Job 1) 0, ThenPush ''R'')]\<rparr>\<rparr>"
  by (simp add: throttle_once_def pushed_def throttle_graph_eq push_accurate_eval fetch_def host0_def)

lemma throttle_twice_eq:
  "throttle_twice = throttle_once\<lparr>state := [''A'' \<mapsto> Num 2]\<rparr>"
  by (simp add: throttle_twice_def pushed_def throttle_once_eq throttle_graph_eq push_accurate_eval host0_def)

lemma throttle_resolved_eq:
  "settle (Job 1) (Resolved (Num 42)) throttle_twice =
     Some (throttle_graph\<lparr>state := [''A'' \<mapsto> Num 2, ''R'' \<mapsto> Num 42],
       host := host0\<lparr>in_progress := [False], calls := [fetch]\<rparr>\<rparr>)"
  by (simp add: settle_def settle_loop_Cons settle_loop_Nil throttle_twice_eq throttle_once_eq
      throttle_graph_eq push_accurate_eval host0_def)

lemma throttle_rejected_eq:
  "settle (Job 1) (Rejected (Error ''timeout'')) throttle_twice =
     Some (throttle_graph\<lparr>state := [''A'' \<mapsto> Num 2],
       host := host0\<lparr>in_progress := [False], calls := [fetch], console := [Error ''timeout'']\<rparr>\<rparr>)"
  by (simp add: settle_def settle_loop_Cons settle_loop_Nil throttle_twice_eq throttle_once_eq
      throttle_graph_eq host0_def)

lemma throttle_third_eq:
  "push [(''A'', Num 3)] None (throttle_graph\<lparr>state := [''A'' \<mapsto> Num 2, ''R'' \<mapsto> Num 42],
       host := host0\<lparr>in_progress := [False], calls := [fetch]\<rparr>\<rparr>) =
   Some (Inr [''A'', ''R''], throttle_graph\<lparr>state := [''A'' \<mapsto> Num 3, ''R'' \<mapsto> Num 42],
       host := host0\<lparr>in_progress := [True], calls := [fetch, fetch],
         reactions := [(Job 3, ClearFlag 0), (Finally (Job 3) 0, ThenPush ''R'')]\<rparr>\<rparr>)"
  by (simp add: throttle_graph_eq push_accurate_eval fetch_def host0_def fun_upd_twist)

lemma throttle_twice_push_eq:
  "push [(''A'', Num 2)] None throttle_once = Some (Inr [''A'', ''R''], throttle_twice)"
  by (simp add: throttle_twice_eq throttle_once_eq throttle_graph_eq push_accurate_eval host0_def)

text \<open>
  C6. While the cell of a throttle holds \<^verbatim>\<open>true\<close>, a call of the throttled function
  returns \<^verbatim>\<open>null\<close> and changes nothing: the request is not called. When the cell holds
  \<^verbatim>\<open>false\<close> and the request returns a promise, the request has run once, the cell holds
  \<^verbatim>\<open>true\<close> and the \<^verbatim>\<open>finally\<close> callback is attached; a new throttle starts with its own cell
  at \<^verbatim>\<open>false\<close>. The callback clears the cell whatever the outcome, and settling a promise
  that carries it with a failure leaves the cell cleared. While the cell holds \<^verbatim>\<open>true\<close>, a
  push in a graph that calls the request only through the throttle returns with the cell
  still \<^verbatim>\<open>true\<close> and without one more call of the request. In the example, the first push
  calls \<^verbatim>\<open>fetch\<close> once, the second not at all, either settlement clears the cell, and the
  push after a success calls \<^verbatim>\<open>fetch\<close> again.
\<close>

theorem throttle_single_flight:
  "(in_flight h c \<longrightarrow> call (Throttled c request) get s h = (Inr Null, s, h)) \<and>
   (\<not> in_flight h c \<longrightarrow> c < length (in_progress h) \<longrightarrow> invoke f get s = (Inr (Promise q), s') \<longrightarrow>
      (\<exists>h'. call (Throttled c (Fn f)) get s h = (Inr (Promise (Finally q c)), s', h') \<and>
         in_flight h' c \<and> calls h' = calls h @ [f] \<and>
         reactions h' = reactions h @ [(q, ClearFlag c)])) \<and>
   (\<exists>h'. ThrottleRequest request h = (Throttled (length (in_progress h)) request, h') \<and>
      length (in_progress h) < length (in_progress h') \<and> \<not> in_flight h' (length (in_progress h))) \<and>
   (\<exists>g'. react (ClearFlag c) p out g = Some ([Finally p c], g') \<and> \<not> in_flight (host g') c) \<and>
   (\<exists>g'. settle p (Rejected reason) g = Some g' \<and>
      ((p, ClearFlag c) \<in> set (reactions (host g)) \<longrightarrow> \<not> in_flight (host g') c)) \<and>
   (in_flight (host g) c \<longrightarrow> (\<forall>(k, d) \<in> set (derivers g). guarded c f (func d)) \<longrightarrow>
      push b m g = Some (Inr ks, g2) \<longrightarrow>
        in_flight (host g2) c \<and> count_list (calls (host g2)) f = count_list (calls (host g)) f) \<and>
   calls (host throttle_graph) = [] \<and> \<not> in_flight (host throttle_graph) 0 \<and>
   calls (host throttle_once) = [fetch] \<and> in_flight (host throttle_once) 0 \<and>
   calls (host throttle_twice) = [fetch] \<and> in_flight (host throttle_twice) 0 \<and>
   (\<exists>g'. settle (Job 1) (Resolved (Num 42)) throttle_twice = Some g' \<and>
      \<not> in_flight (host g') 0 \<and> calls (host g') = [fetch] \<and>
      (\<exists>ks g''. push [(''A'', Num 3)] None g' = Some (Inr ks, g'') \<and> calls (host g'') = [fetch, fetch])) \<and>
   (\<exists>g'. settle (Job 1) (Rejected (Error ''timeout'')) throttle_twice = Some g' \<and>
      \<not> in_flight (host g') 0 \<and> calls (host g') = [fetch])"
proof -
  have 1: "in_flight h c \<longrightarrow> call (Throttled c request) get s h = (Inr Null, s, h)"
    by (rule impI) (rule call_in_flight)
  have 2: "\<not> in_flight h c \<longrightarrow> c < length (in_progress h) \<longrightarrow> invoke f get s = (Inr (Promise q), s') \<longrightarrow>
      (\<exists>h'. call (Throttled c (Fn f)) get s h = (Inr (Promise (Finally q c)), s', h') \<and>
         in_flight h' c \<and> calls h' = calls h @ [f] \<and>
         reactions h' = reactions h @ [(q, ClearFlag c)])"
    by (auto simp: in_flight_def Let_def)
  have 3: "\<exists>h'. ThrottleRequest request h = (Throttled (length (in_progress h)) request, h') \<and>
      length (in_progress h) < length (in_progress h') \<and> \<not> in_flight h' (length (in_progress h))"
    by (simp add: ThrottleRequest_def in_flight_def)
  have 4: "\<exists>g'. react (ClearFlag c) p out g = Some ([Finally p c], g') \<and> \<not> in_flight (host g') c"
    using react_clears[of c p out g] by blast
  have 5: "\<exists>g'. settle p (Rejected reason) g = Some g' \<and>
      ((p, ClearFlag c) \<in> set (reactions (host g)) \<longrightarrow> \<not> in_flight (host g') c)"
  proof -
    from settle_loop_rejected[of reason "[p]" g] obtain g' where
      s: "settle_loop (Rejected reason) [p] g = Some g'" by blast
    from settle_loop_rejected_flags[OF s, of c] s show ?thesis by (auto simp: settle_def)
  qed
  have 6: "in_flight (host g) c \<longrightarrow> (\<forall>(k, d) \<in> set (derivers g). guarded c f (func d)) \<longrightarrow>
      push b m g = Some (Inr ks, g2) \<longrightarrow>
        in_flight (host g2) c \<and> count_list (calls (host g2)) f = count_list (calls (host g)) f"
    using push_guarded[of b m g ks g2 c f] by blast
  have 7: "calls (host throttle_graph) = [] \<and> \<not> in_flight (host throttle_graph) 0 \<and>
   calls (host throttle_once) = [fetch] \<and> in_flight (host throttle_once) 0 \<and>
   calls (host throttle_twice) = [fetch] \<and> in_flight (host throttle_twice) 0"
    by (simp add: throttle_twice_eq throttle_once_eq throttle_graph_eq in_flight_def host0_def)
  have 8: "\<exists>g'. settle (Job 1) (Resolved (Num 42)) throttle_twice = Some g' \<and>
      \<not> in_flight (host g') 0 \<and> calls (host g') = [fetch] \<and>
      (\<exists>ks g''. push [(''A'', Num 3)] None g' = Some (Inr ks, g'') \<and> calls (host g'') = [fetch, fetch])"
    unfolding throttle_resolved_eq by (simp add: throttle_third_eq in_flight_def)
  have 9: "\<exists>g'. settle (Job 1) (Rejected (Error ''timeout'')) throttle_twice = Some g' \<and>
      \<not> in_flight (host g') 0 \<and> calls (host g') = [fetch]"
    unfolding throttle_rejected_eq by (simp add: in_flight_def)
  from 1 2 3 4 5 6 7 8 9 show ?thesis by blast
qed

theorem throttle_single_flight_witness:
  "in_flight (host throttle_once) 0 \<and> guarded 0 fetch (Throttled 0 (Fn fetch)) \<and>
   call (Throttled 0 (Fn fetch)) state_get (state throttle_once) (host throttle_once) =
     (Inr Null, state throttle_once, host throttle_once) \<and>
   (\<exists>h'. call (Throttled 0 (Fn fetch)) state_get [''A'' \<mapsto> Num 1] (host throttle_graph) =
      (Inr (Promise (Finally (Job 1) 0)), [''A'' \<mapsto> Num 1], h') \<and> in_flight h' 0 \<and> calls h' = [fetch]) \<and>
   (\<exists>g'. settle (Job 1) (Rejected (Error ''timeout'')) throttle_twice = Some g' \<and>
      \<not> in_flight (host g') 0) \<and>
   (\<exists>ks g'. push [(''A'', Num 2)] None throttle_once = Some (Inr ks, g') \<and>
      in_flight (host g') 0 \<and> count_list (calls (host g')) fetch = 1)"
proof -
  note t = throttle_single_flight [where c = 0 and f = fetch and get = state_get]
  have f: "in_flight (host throttle_once) 0"
    by (simp add: throttle_once_eq in_flight_def)
  from t [where h = "host throttle_once", THEN conjunct1, THEN mp, OF f]
  have 1: "call (Throttled 0 (Fn fetch)) state_get (state throttle_once) (host throttle_once) =
     (Inr Null, state throttle_once, host throttle_once)" .
  have nf: "\<not> in_flight (host throttle_graph) 0" "0 < length (in_progress (host throttle_graph))"
    by (simp_all add: throttle_graph_eq in_flight_def host0_def)
  have iv: "invoke fetch state_get [''A'' \<mapsto> Num 1] = (Inr (Promise (Job 1)), [''A'' \<mapsto> Num 1])"
    by (simp add: fetch_def state_get_def)
  from t [where h = "host throttle_graph", THEN conjunct2, THEN conjunct1, THEN mp, OF nf(1), THEN mp, OF nf(2),
      THEN mp, OF iv]
  have 2: "\<exists>h'. call (Throttled 0 (Fn fetch)) state_get [''A'' \<mapsto> Num 1] (host throttle_graph) =
      (Inr (Promise (Finally (Job 1) 0)), [''A'' \<mapsto> Num 1], h') \<and> in_flight h' 0 \<and> calls h' = [fetch]"
    by (auto simp: throttle_graph_eq host0_def)
  have reg: "(Job 1, ClearFlag 0) \<in> set (reactions (host throttle_twice))"
    by (simp add: throttle_twice_eq throttle_once_eq)
  with t [where g = throttle_twice and p = "Job 1" and reason = "Error ''timeout''",
      THEN conjunct2, THEN conjunct2, THEN conjunct2, THEN conjunct2, THEN conjunct1]
  have 3: "\<exists>g'. settle (Job 1) (Rejected (Error ''timeout'')) throttle_twice = Some g' \<and>
      \<not> in_flight (host g') 0" by blast
  have g: "\<forall>(k, d) \<in> set (derivers throttle_once). guarded 0 fetch (func d)"
    by (simp add: throttle_once_eq throttle_graph_eq)
  have "in_flight (host throttle_twice) 0 \<and>
      count_list (calls (host throttle_twice)) fetch = count_list (calls (host throttle_once)) fetch"
    using t [where g = throttle_once, THEN conjunct2, THEN conjunct2,
        THEN conjunct2, THEN conjunct2, THEN conjunct2, THEN conjunct1, THEN mp, OF f, THEN mp, OF g,
        THEN mp, OF throttle_twice_push_eq] .
  moreover have "count_list (calls (host throttle_once)) fetch = 1"
    by (simp add: throttle_once_eq)
  ultimately have 4: "\<exists>ks g'. push [(''A'', Num 2)] None throttle_once = Some (Inr ks, g') \<and>
      in_flight (host g') 0 \<and> count_list (calls (host g')) fetch = 1"
    using throttle_twice_push_eq by simp
  from f 1 2 3 4 show ?thesis by simp
qed

subsection \<open>Updating a key that has a request\<close>

lemma watched_request_eq:
  "watched_request = request_graph\<lparr>watchers := [''R'' \<mapsto> [1]], global_watchers := [2]\<rparr>"
  by (simp add: watched_request_def watch_def watch_all_def request_graph_eq)

lemma watched_pending_eq:
  "watched_pending = watched_request\<lparr>state := [''A'' \<mapsto> Num 3],
     host := host0\<lparr>calls := [fetch], reactions := [(Job 3, ThenPush ''R'')]\<rparr>\<rparr>"
  by (simp add: watched_pending_def pushed_def watched_request_eq request_graph_eq push_accurate_eval
      fetch_def host0_def)

text \<open>
  C5. For a key with a request deriver: when the key is in the batch, \<^verbatim>\<open>update\<close> only
  dispatches the change: the watchers of the key and then the global watchers are called
  with the key, each as often as it is registered, no function is called, nothing is
  attached, the state stays. When the key is not in the batch, the function is called and
  no watcher is; a promise it returns gets the chain for the key attached, and a falsy
  result leaves it at the call. Resolving a promise that carries the chain for the key
  pushes \<open>{key: value}\<close> with the \<^verbatim>\<open>null\<close> mode, that is the default mode of the graph; an
  exception of that push is printed.
\<close>

theorem request_update:
  assumes "map_of (derivers g) key = Some d" and "is_request d"
  shows "(key \<in> set (map fst newState) \<longrightarrow>
            update key newState g = (None, dispatch_change key g) \<and>
            dispatch_change key g =
              g\<lparr>host := (host g)\<lparr>notified := notified (host g)
                 @ map (\<lambda>w. (w, key)) (case watchers g key of None \<Rightarrow> [] | Some ws \<Rightarrow> ws)
                 @ map (\<lambda>w. (w, key)) (global_watchers g)\<rparr>\<rparr> \<and>
            calls (host (dispatch_change key g)) = calls (host g) \<and>
            reactions (host (dispatch_change key g)) = reactions (host g) \<and>
            state (dispatch_change key g) = state g) \<and>
         (key \<notin> set (map fst newState) \<longrightarrow>
            (\<forall>x s h. call (func d) state_get (state g) (host g) = (Inr x, s, h) \<longrightarrow>
               notified h = notified (host g) \<and>
               (\<forall>p. x = Promise p \<longrightarrow>
                  update key newState g =
                    (None, g\<lparr>host := h\<lparr>reactions := reactions h @ [(p, ThenPush key)]\<rparr>\<rparr>)) \<and>
               (\<not> truthy x \<longrightarrow> update key newState g = (None, g\<lparr>host := h\<rparr>))) \<and>
            notified (host (snd (update key newState g))) = notified (host g) \<and>
            (\<forall>f. func d = Fn f \<longrightarrow>
               calls (host (snd (update key newState g))) = calls (host g) @ [f])) \<and>
         (\<forall>p v g2. filter (\<lambda>(q, r). q = p) (reactions (host g2)) = [(p, ThenPush key)] \<longrightarrow>
            settle p (Resolved v) g2 =
              (case push [(key, v)] None
                      (g2\<lparr>host := (host g2)\<lparr>reactions := filter (\<lambda>(q, r). q \<noteq> p) (reactions (host g2))\<rparr>\<rparr>) of
                 None \<Rightarrow> None
               | Some (Inl e, g3) \<Rightarrow> Some (g3\<lparr>host := (host g3)\<lparr>console := console (host g3) @ [e]\<rparr>\<rparr>)
               | Some (Inr ks, g3) \<Rightarrow> Some g3))"
proof (intro conjI impI allI)
  fix p v and g2 :: graph
  assume "filter (\<lambda>(q, r). q = p) (reactions (host g2)) = [(p, ThenPush key)]"
  then show "settle p (Resolved v) g2 =
              (case push [(key, v)] None
                      (g2\<lparr>host := (host g2)\<lparr>reactions := filter (\<lambda>(q, r). q \<noteq> p) (reactions (host g2))\<rparr>\<rparr>) of
                 None \<Rightarrow> None
               | Some (Inl e, g3) \<Rightarrow> Some (g3\<lparr>host := (host g3)\<lparr>console := console (host g3) @ [e]\<rparr>\<rparr>)
               | Some (Inr ks, g3) \<Rightarrow> Some g3)"
    by (simp add: settle_def settle_loop_Cons settle_loop_Nil split: option.splits sum.splits prod.splits)
next
  fix x s h
  assume "call (func d) state_get (state g) (host g) = (Inr x, s, h)"
  from call_frame[OF this] show "notified h = notified (host g)" by simp
next
  assume k: "key \<notin> set (map fst newState)"
  obtain r s h where c: "call (func d) state_get (state g) (host g) = (r, s, h)"
    by (cases "call (func d) state_get (state g) (host g)") auto
  from call_frame[OF c] have "notified h = notified (host g)" by simp
  with assms k c show "notified (host (snd (update key newState g))) = notified (host g)"
    by (auto simp: update_def split: sum.splits StateValue.splits)
qed (use assms in \<open>auto simp: update_def dispatch_change_def split: prod.splits sum.splits StateValue.splits\<close>)

theorem request_update_witness:
  "update ''R'' [(''R'', Num 1)] request_graph = (None, dispatch_change ''R'' request_graph) \<and>
   update ''R'' [(''A'', Num 3)] (request_graph\<lparr>state := [''A'' \<mapsto> Num 3]\<rparr>) = (None, request_pending) \<and>
   calls (host request_pending) = [fetch] \<and>
   update ''R'' [(''A'', Num 2)] throttle_once = (None, throttle_once) \<and>
   settle (Job 3) (Resolved (Num 8)) request_pending =
     Some (request_graph\<lparr>state := [''A'' \<mapsto> Num 3, ''R'' \<mapsto> Num 8], host := host0\<lparr>calls := [fetch]\<rparr>\<rparr>) \<and>
   update ''R'' [(''R'', Num 1)] watched_request =
     (None, watched_request\<lparr>host := host0\<lparr>notified := [(1, ''R''), (2, ''R'')]\<rparr>\<rparr>) \<and>
   update ''R'' [(''A'', Num 3)] (watched_request\<lparr>state := [''A'' \<mapsto> Num 3]\<rparr>) = (None, watched_pending) \<and>
   notified (host watched_pending) = [] \<and>
   settle (Job 3) (Resolved (Num 8)) watched_pending =
     Some (watched_request\<lparr>state := [''A'' \<mapsto> Num 3, ''R'' \<mapsto> Num 8],
       host := host0\<lparr>calls := [fetch], notified := [(1, ''R''), (2, ''R'')]\<rparr>\<rparr>)"
proof -
  let ?d = "\<lparr>params = [''A''], func = Fn fetch, order = None, is_request = True\<rparr>"
  have d: "map_of (derivers request_graph) ''R'' = Some ?d" by (simp add: request_graph_eq)
  have r: "is_request ?d" by simp
  note u = request_update [OF d r]
  have 1: "update ''R'' [(''R'', Num 1)] request_graph = (None, dispatch_change ''R'' request_graph)"
    using u[of "[(''R'', Num 1)]"] by simp
  let ?g = "request_graph\<lparr>state := [''A'' \<mapsto> Num 3]\<rparr>"
  have d': "map_of (derivers ?g) ''R'' = Some ?d" by (simp add: request_graph_eq)
  have c: "call (func ?d) state_get (state ?g) (host ?g) = (Inr (Promise (Job 3)), state ?g, host0\<lparr>calls := [fetch]\<rparr>)"
    by (simp add: fetch_def state_get_def request_graph_eq host0_def)
  have 2: "update ''R'' [(''A'', Num 3)] ?g = (None, request_pending)"
    using request_update [OF d' r, of "[(''A'', Num 3)]"] c
    by (simp add: request_pending_eq request_graph_eq host0_def)
  have cs: "calls (host request_pending) = [fetch]"
    using request_update [OF d' r, of "[(''A'', Num 3)]"] 2
    by (simp add: request_graph_eq host0_def)
  let ?t = "\<lparr>params = [''A''], func = Throttled 0 (Fn fetch), order = None, is_request = True\<rparr>"
  have dt: "map_of (derivers throttle_once) ''R'' = Some ?t"
    by (simp add: throttle_once_eq throttle_graph_eq)
  have rt: "is_request ?t" by simp
  have ct: "call (func ?t) state_get (state throttle_once) (host throttle_once) =
      (Inr Null, state throttle_once, host throttle_once)"
    by (simp add: throttle_once_eq host0_def)
  have 4: "update ''R'' [(''A'', Num 2)] throttle_once = (None, throttle_once)"
    using request_update [OF dt rt, of "[(''A'', Num 2)]"] ct by simp
  have f: "filter (\<lambda>(q, r). q = Job 3) (reactions (host request_pending)) = [(Job 3, ThenPush ''R'')]"
    by (simp add: request_pending_eq)
  have 3: "settle (Job 3) (Resolved (Num 8)) request_pending =
     Some (request_graph\<lparr>state := [''A'' \<mapsto> Num 3, ''R'' \<mapsto> Num 8], host := host0\<lparr>calls := [fetch]\<rparr>\<rparr>)"
    using u[of "[]", THEN conjunct2, THEN conjunct2, rule_format, OF f]
    by (simp add: request_pending_eq request_graph_eq push_accurate_eval host0_def)
  have dw: "map_of (derivers watched_request) ''R'' = Some ?d"
    by (simp add: watched_request_eq request_graph_eq)
  note w = request_update [OF dw r]
  have 5: "update ''R'' [(''R'', Num 1)] watched_request =
     (None, watched_request\<lparr>host := host0\<lparr>notified := [(1, ''R''), (2, ''R'')]\<rparr>\<rparr>)"
    using w[of "[(''R'', Num 1)]"] by (simp add: watched_request_eq request_graph_eq host0_def)
  let ?w = "watched_request\<lparr>state := [''A'' \<mapsto> Num 3]\<rparr>"
  have dw': "map_of (derivers ?w) ''R'' = Some ?d" by (simp add: watched_request_eq request_graph_eq)
  have cw: "call (func ?d) state_get (state ?w) (host ?w) = (Inr (Promise (Job 3)), state ?w, host0\<lparr>calls := [fetch]\<rparr>)"
    by (simp add: fetch_def state_get_def watched_request_eq request_graph_eq host0_def)
  have 6: "update ''R'' [(''A'', Num 3)] ?w = (None, watched_pending)"
    using request_update [OF dw' r, of "[(''A'', Num 3)]"] cw
    by (simp add: watched_pending_eq watched_request_eq request_graph_eq host0_def)
  have 7: "notified (host watched_pending) = []"
    using request_update [OF dw' r, of "[(''A'', Num 3)]"] 6
    by (simp add: watched_request_eq request_graph_eq host0_def)
  have fw: "filter (\<lambda>(q, r). q = Job 3) (reactions (host watched_pending)) = [(Job 3, ThenPush ''R'')]"
    by (simp add: watched_pending_eq)
  have 8: "settle (Job 3) (Resolved (Num 8)) watched_pending =
     Some (watched_request\<lparr>state := [''A'' \<mapsto> Num 3, ''R'' \<mapsto> Num 8],
       host := host0\<lparr>calls := [fetch], notified := [(1, ''R''), (2, ''R'')]\<rparr>\<rparr>)"
    using w[of "[]", THEN conjunct2, THEN conjunct2, rule_format, OF fw]
    by (simp add: watched_pending_eq watched_request_eq request_graph_eq push_accurate_eval host0_def)
  from 1 2 cs 3 4 5 6 7 8 show ?thesis by simp
qed

subsection \<open>A callback registered twice\<close>












end
